theory Spec2Isabelle
  imports Complex_Main "HOL-Library.AList" "HOL-Library.Monad_Syntax"
begin

section \<open>JavaScript values carried by a request body\<close>

text \<open>
  A request body is parsed JSON, so its values are the JSON values, plus \<open>undefined\<close>,
  which a read of a missing property yields and which an object literal stores when it
  copies such a read. An object is the list of its own properties in insertion order
  (\<open>JSON.stringify\<close> and \<open>{...body}\<close> both follow that order); a well-formed object has
  no key twice. A thrown \<open>TypeError\<close> is the value \<open>None\<close> of an \<open>option\<close> result: it
  is the only exception the translator can raise on JSON values.
\<close>

datatype json =
    JUndef
  | JNull
  | JBool bool
  | JNum real
  | JStr string
  | JArr "json list"
  | JObj "(string \<times> json) list"

text \<open>\<open>!v\<close> is \<open>\<not> truthy v\<close>: the falsy values are undefined, null, false, 0 and "".\<close>

fun truthy :: "json \<Rightarrow> bool" where
  "truthy JUndef = False"
| "truthy JNull = False"
| "truthy (JBool b) = b"
| "truthy (JNum n) = (n \<noteq> 0)"
| "truthy (JStr s) = (s \<noteq> [])"
| "truthy (JArr xs) = True"
| "truthy (JObj kvs) = True"

definition nullish :: "json \<Rightarrow> bool" where
  "nullish v = (v = JUndef \<or> v = JNull)"

text \<open>
  \<open>field v k\<close> is the value of \<open>v.k\<close> where the read does not throw: the stored value of
  an own property, \<open>undefined\<close> for a missing one and for every property name the
  translator reads on a boolean, number, string or array (none of them is inherited).
\<close>

fun field :: "json \<Rightarrow> string \<Rightarrow> json" where
  "field (JObj kvs) k = (case map_of kvs k of None \<Rightarrow> JUndef | Some v \<Rightarrow> v)"
| "field v k = JUndef"

text \<open>\<open>read_prop v k\<close> is the read \<open>v.k\<close> itself: it throws on \<open>undefined\<close> and \<open>null\<close>.\<close>

definition read_prop :: "json \<Rightarrow> string \<Rightarrow> json option" where
  "read_prop v k = (if nullish v then None else Some (field v k))"

text \<open>\<open>for (const item of v)\<close>: an array yields its elements, a string its characters,
  anything else is not iterable.\<close>

fun iterate :: "json \<Rightarrow> json list option" where
  "iterate (JArr xs) = Some xs"
| "iterate (JStr s) = Some (map (\<lambda>c. JStr [c]) s)"
| "iterate v = None"

text \<open>\<open>xs.map(f)\<close> with a callback that may throw: the first throw aborts the map.\<close>

definition map_throwing :: "('a \<Rightarrow> 'b option) \<Rightarrow> 'a list \<Rightarrow> 'b list option" where
  "map_throwing f xs = those (map f xs)"

section \<open>The Responses-to-Chat request translator\<close>

text \<open>
  The function \<open>openaiResponsesToOpenAIRequest\<close> of \<^verbatim>\<open>src/src/lib/initCloudSync.js\<close>;
  line numbers are those of that file. Once one property of a value has been read
  without a throw, a later read on the same value cannot throw either: the definitions
  below use \<open>read_prop\<close> for the first read of each value and \<open>field\<close> for the later
  ones.
\<close>

text \<open>The callback of \<open>item.content.map\<close> (source lines 70 to 74).\<close>

definition convert_part :: "json \<Rightarrow> json option" where
  "convert_part c = do {
     t \<leftarrow> read_prop c ''type'';
     if t = JStr ''input_text''
     then Some (JObj [(''type'', JStr ''text''), (''text'', field c ''text'')])
     else if field c ''type'' = JStr ''output_text''
     then Some (JObj [(''type'', JStr ''text''), (''text'', field c ''text'')])
     else Some c
   }"

text \<open>
  The local state of the loop over \<open>body.input\<close>. \<open>currentAssistantMsg\<close> is \<open>null\<close>
  (\<open>None\<close>) or the object created at line 81, whose \<open>role\<close> and \<open>content\<close> never change
  and whose \<open>tool_calls\<close> array only grows by \<open>push\<close>: \<open>Some tcs\<close> stands for that object
  with \<open>tool_calls = tcs\<close>, and \<open>assistant_msg tcs\<close> is its value when it is pushed to
  \<open>result.messages\<close>.
\<close>

record loop_state =
  messages :: "json list"
  currentAssistantMsg :: "json list option"
  pendingToolResults :: "json list"

definition assistant_msg :: "json list \<Rightarrow> json" where
  "assistant_msg tcs =
     JObj [(''role'', JStr ''assistant''), (''content'', JNull), (''tool_calls'', JArr tcs)]"

text \<open>Lines 56 to 59 and 98 to 101.\<close>

definition flush_assistant :: "loop_state \<Rightarrow> loop_state" where
  "flush_assistant s =
     (case currentAssistantMsg s of
        None \<Rightarrow> s
      | Some tcs \<Rightarrow> s\<lparr>messages := messages s @ [assistant_msg tcs], currentAssistantMsg := None\<rparr>)"

text \<open>Lines 61 to 66 and 103 to 108.\<close>

definition flush_pending :: "loop_state \<Rightarrow> loop_state" where
  "flush_pending s =
     (if length (pendingToolResults s) > 0
      then s\<lparr>messages := messages s @ pendingToolResults s, pendingToolResults := []\<rparr>
      else s)"

text \<open>The object pushed to \<open>tool_calls\<close> at lines 87 to 94.\<close>

definition tool_call :: "json \<Rightarrow> json" where
  "tool_call item =
     JObj [(''id'', field item ''call_id''), (''type'', JStr ''function''),
           (''function'', JObj [(''name'', field item ''name''),
                                (''arguments'', field item ''arguments'')])]"

text \<open>
  The object pushed at lines 110 to 114. \<open>JSON.stringify\<close> is the host's function, taken
  as the parameter \<open>stringify\<close>; \<open>typeof v === "string"\<close> holds exactly for \<open>JStr\<close>.
\<close>

definition tool_result :: "(json \<Rightarrow> json) \<Rightarrow> json \<Rightarrow> json" where
  "tool_result stringify item =
     JObj [(''role'', JStr ''tool''), (''tool_call_id'', field item ''call_id''),
           (''content'', (case field item ''output'' of
                            JStr s \<Rightarrow> field item ''output''
                          | _ \<Rightarrow> stringify (field item ''output'')))]"

text \<open>The value of \<open>content\<close> at lines 69 to 75 and the object pushed at line 76.\<close>

definition convert_content :: "json \<Rightarrow> json option" where
  "convert_content c =
     (case c of
        JArr cs \<Rightarrow> map_option JArr (map_throwing convert_part cs)
      | _ \<Rightarrow> Some c)"

definition message_msg :: "json \<Rightarrow> json option" where
  "message_msg item = do {
     content \<leftarrow> convert_content (field item ''content'');
     Some (JObj [(''role'', field item ''role''), (''content'', content)])
   }"

text \<open>One iteration of the loop, lines 54 to 119.\<close>

definition step :: "(json \<Rightarrow> json) \<Rightarrow> loop_state \<Rightarrow> json \<Rightarrow> loop_state option" where
  "step stringify s item = do {
     t \<leftarrow> read_prop item ''type'';
     if t = JStr ''message'' then do {
       let s1 = flush_pending (flush_assistant s);
       m \<leftarrow> message_msg item;
       Some (s1\<lparr>messages := messages s1 @ [m]\<rparr>)
     } else if t = JStr ''function_call'' then do {
       let tcs = (case currentAssistantMsg s of None \<Rightarrow> [] | Some tcs \<Rightarrow> tcs);
       Some (s\<lparr>currentAssistantMsg := Some (tcs @ [tool_call item])\<rparr>)
     } else if t = JStr ''function_call_output'' then do {
       let s1 = flush_pending (flush_assistant s);
       Some (s1\<lparr>messages := messages s1 @ [tool_result stringify item]\<rparr>)
     } else if t = JStr ''reasoning'' then Some s
     else Some s
   }"

fun loop :: "(json \<Rightarrow> json) \<Rightarrow> loop_state \<Rightarrow> json list \<Rightarrow> loop_state option" where
  "loop stringify s [] = Some s"
| "loop stringify s (item # items) =
     (case step stringify s item of
        None \<Rightarrow> None
      | Some s' \<Rightarrow> loop stringify s' items)"

text \<open>The callback of \<open>body.tools.map\<close> (lines 134 to 145).\<close>

definition wrap_tool :: "json \<Rightarrow> json" where
  "wrap_tool tool =
     JObj [(''type'', JStr ''function''),
           (''function'', JObj [(''name'', field tool ''name''),
                                (''description'', field tool ''description''),
                                (''parameters'', field tool ''parameters''),
                                (''strict'', field tool ''strict'')])]"

definition convert_tool :: "json \<Rightarrow> json option" where
  "convert_tool tool = do {
     f \<leftarrow> read_prop tool ''function'';
     if truthy f then Some tool else Some (wrap_tool tool)
   }"

text \<open>Lines 45 to 47: the messages array after the instructions have been looked at.\<close>

definition instructions_msgs :: "json \<Rightarrow> json list" where
  "instructions_msgs body =
     (if truthy (field body ''instructions'')
      then [JObj [(''role'', JStr ''system''), (''content'', field body ''instructions'')]]
      else [])"

text \<open>Lines 123 to 130: the messages array after the loop's leftovers are pushed.\<close>

definition flush_remaining :: "loop_state \<Rightarrow> json list" where
  "flush_remaining s =
     (let ms = (case currentAssistantMsg s of
                  None \<Rightarrow> messages s
                | Some tcs \<Rightarrow> messages s @ [assistant_msg tcs])
      in if length (pendingToolResults s) > 0 then ms @ pendingToolResults s else ms)"

text \<open>Lines 133 to 146, on the properties of \<open>result\<close>.\<close>

definition convert_tools ::
  "json \<Rightarrow> (string \<times> json) list \<Rightarrow> (string \<times> json) list option" where
  "convert_tools body result =
     (if truthy (field body ''tools'') then
        (case field body ''tools'' of
           JArr ts \<Rightarrow> map_option (\<lambda>ts'. AList.update ''tools'' (JArr ts') result)
                        (map_throwing convert_tool ts)
         | _ \<Rightarrow> Some result)
      else Some result)"

text \<open>Lines 149 to 154.\<close>

definition cleanup :: "(string \<times> json) list \<Rightarrow> (string \<times> json) list" where
  "cleanup kvs =
     AList.delete ''reasoning'' (AList.delete ''store'' (AList.delete ''prompt_cache_key''
       (AList.delete ''include'' (AList.delete ''instructions'' (AList.delete ''input'' kvs)))))"

text \<open>
  The translator. A body that is neither an object nor \<open>null\<close> or \<open>undefined\<close> has no
  \<open>input\<close> property, so line 39 returns it; \<open>{...body}\<close> at line 41 is reached by an
  object only and copies its properties in order. \<open>result.messages = []\<close> fixes the
  position of the key \<open>messages\<close> (in place when the body has one, last otherwise) and
  the array then grows in place; \<open>AList.update\<close> with the final array gives that object.
  \<open>model\<close>, \<open>stream\<close> and \<open>credentials\<close> are never read.
\<close>

fun openaiResponsesToOpenAIRequest ::
  "(json \<Rightarrow> json) \<Rightarrow> json \<Rightarrow> json \<Rightarrow> json \<Rightarrow> json \<Rightarrow> json option" where
  "openaiResponsesToOpenAIRequest stringify model (JObj kvs) stream credentials =
     (let body = JObj kvs in
      if \<not> truthy (field body ''input'') then Some body
      else do {
        items \<leftarrow> iterate (field body ''input'');
        s \<leftarrow> loop stringify
               \<lparr>messages = instructions_msgs body, currentAssistantMsg = None,
                pendingToolResults = []\<rparr> items;
        result \<leftarrow> convert_tools body (AList.update ''messages'' (JArr (flush_remaining s)) kvs);
        Some (JObj (cleanup result))
      })"
| "openaiResponsesToOpenAIRequest stringify model JUndef stream credentials = None"
| "openaiResponsesToOpenAIRequest stringify model JNull stream credentials = None"
| "openaiResponsesToOpenAIRequest stringify model body stream credentials = Some body"

text \<open>The \<open>messages\<close> and \<open>tools\<close> arrays of a translated request.\<close>

definition messages_of :: "json \<Rightarrow> json list" where
  "messages_of r = (case field r ''messages'' of JArr ms \<Rightarrow> ms | _ \<Rightarrow> [])"

section \<open>Vocabulary of the statements\<close>

text \<open>
  An iteration of the loop throws exactly on the items that are not \<open>item_ok\<close>: \<open>null\<close>
  and \<open>undefined\<close> items, and message items whose content array holds a \<open>null\<close> or
  \<open>undefined\<close> part. The tools conversion throws exactly when the tools array holds
  such an entry.
\<close>

definition item_ok :: "json \<Rightarrow> bool" where
  "item_ok item \<longleftrightarrow>
     \<not> nullish item \<and>
     (field item ''type'' = JStr ''message'' \<longrightarrow>
        (case field item ''content'' of
           JArr cs \<Rightarrow> \<forall>c \<in> set cs. \<not> nullish c
         | _ \<Rightarrow> True))"

definition tools_ok :: "json \<Rightarrow> bool" where
  "tools_ok v = (case v of JArr ts \<Rightarrow> \<forall>t \<in> set ts. \<not> nullish t | _ \<Rightarrow> True)"

text \<open>\<open>has_field v k\<close>: the object \<open>v\<close> has an own property \<open>k\<close>, whatever its value.\<close>

definition has_field :: "json \<Rightarrow> string \<Rightarrow> bool" where
  "has_field v k = (case v of JObj kvs \<Rightarrow> k \<in> fst ` set kvs | _ \<Rightarrow> False)"

text \<open>The fields deleted at lines 149 to 154.\<close>

definition responses_only_fields :: "string set" where
  "responses_only_fields =
     {''input'', ''instructions'', ''include'', ''prompt_cache_key'', ''store'', ''reasoning''}"

definition tools_of :: "json \<Rightarrow> json list" where
  "tools_of r = (case field r ''tools'' of JArr ts \<Rightarrow> ts | _ \<Rightarrow> [])"

text \<open>
  The nested shape of a tool declaration, read as weakly as the words allow: the type
  is \<open>"function"\<close> and \<open>function\<close> is an object.
\<close>

definition canonical_tool :: "json \<Rightarrow> bool" where
  "canonical_tool t \<longleftrightarrow>
     field t ''type'' = JStr ''function'' \<and>
     (case field t ''function'' of JObj fs \<Rightarrow> True | _ \<Rightarrow> False)"


text \<open>
  The order of the output is read off its atoms: a synthesized assistant message (the
  only output message with a \<open>tool_calls\<close> array) counts as the list of its tool calls,
  any other message as itself. \<open>item_atom\<close> is the atom an input item gives rise to, if
  any, and \<open>state_atoms\<close> lists the atoms held by the loop state in the order in which
  the flushes emit them.
\<close>

datatype atom = Whole json | Call json

definition explode :: "json \<Rightarrow> atom list" where
  "explode m = (case field m ''tool_calls'' of JArr tcs \<Rightarrow> map Call tcs | _ \<Rightarrow> [Whole m])"

definition item_atom :: "(json \<Rightarrow> json) \<Rightarrow> json \<Rightarrow> atom option" where
  "item_atom stringify item =
     (if field item ''type'' = JStr ''message'' then map_option Whole (message_msg item)
      else if field item ''type'' = JStr ''function_call'' then Some (Call (tool_call item))
      else if field item ''type'' = JStr ''function_call_output''
      then Some (Whole (tool_result stringify item))
      else None)"

definition without_reasoning :: "json list \<Rightarrow> json list" where
  "without_reasoning items = filter (\<lambda>item. field item ''type'' \<noteq> JStr ''reasoning'') items"

definition state_atoms :: "loop_state \<Rightarrow> atom list" where
  "state_atoms s =
     concat (map explode (messages s))
     @ (case currentAssistantMsg s of None \<Rightarrow> [] | Some tcs \<Rightarrow> map Call tcs)
     @ concat (map explode (pendingToolResults s))"

section \<open>The project-id service: onboarding by polling\<close>

text \<open>
  The functions of \<^verbatim>\<open>src/unnamed/part_001\<close>; line numbers are those of that file.
  \<open>extractProjectIdFromOnboard\<close>: \<open>String.prototype.trim\<close> is the host's function,
  taken as the parameter \<open>trim\<close>. \<open>typeof project === "object"\<close> with a truthy
  \<open>project\<close> holds for objects and arrays; an array has no \<open>id\<close>.
\<close>

definition extractProjectIdFromOnboard :: "(string \<Rightarrow> string) \<Rightarrow> json \<Rightarrow> json" where
  "extractProjectIdFromOnboard trim data =
     (if \<not> truthy (if nullish data then JUndef else field data ''response'') then JNull
      else
        let project = field (field data ''response'') ''cloudaicompanionProject''
        in case project of
             JStr p \<Rightarrow> if trim p \<noteq> [] then JStr (trim p) else JNull
           | JObj kvs \<Rightarrow>
               (case field project ''id'' of
                  JStr i \<Rightarrow> if trim i \<noteq> [] then JStr (trim i) else JNull
                | _ \<Rightarrow> JNull)
           | JArr xs \<Rightarrow>
               (case field project ''id'' of
                  JStr i \<Rightarrow> if trim i \<noteq> [] then JStr (trim i) else JNull
                | _ \<Rightarrow> JNull)
           | _ \<Rightarrow> JNull)"

text \<open>
  What one attempt of \<open>onboardUser\<close> observes of the network: \<open>fetch\<close> rejects with an
  error of some name (\<open>AbortError\<close> when the 30 second timer fires), or it resolves to
  a response with its \<open>ok\<close> flag, whose \<open>json()\<close> rejects or yields the parsed body.
  Every request is taken to settle in one of these ways.
\<close>

datatype body_result = JsonThrows string | Json json

datatype attempt = FetchThrows string | Response bool body_result

datatype try_result = TryReturn json | TryNotDone | TryThrow string

text \<open>
  The \<open>try\<close> block of one attempt (lines 152 to 185): it returns the project id, or
  finds the operation not done, or throws an error, of which the \<open>catch\<close> block reads
  the name only. \<open>new Error(...)\<close> has the name \<open>Error\<close>; reading \<open>done\<close> of a \<open>null\<close>
  body throws a \<open>TypeError\<close>.
\<close>

definition try_attempt :: "(string \<Rightarrow> string) \<Rightarrow> attempt \<Rightarrow> try_result" where
  "try_attempt trim a =
     (case a of
        FetchThrows name \<Rightarrow> TryThrow name
      | Response ok b \<Rightarrow>
          if \<not> ok then TryThrow ''Error''
          else (case b of
                  JsonThrows name \<Rightarrow> TryThrow name
                | Json data \<Rightarrow>
                    (case read_prop data ''done'' of
                       None \<Rightarrow> TryThrow ''TypeError''
                     | Some d \<Rightarrow>
                         if d = JBool True then
                           (let projectId = extractProjectIdFromOnboard trim data
                            in if truthy projectId then TryReturn projectId
                               else TryThrow ''Error'')
                         else TryNotDone)))"

text \<open>
  The effects a run leaves behind, in order: the requests sent, tagged with the attempt
  number, and the waits, tagged with their delay in milliseconds.
\<close>

datatype event = is_Fetch: Fetch nat | is_Wait: Wait (delay: nat)

datatype outcome = Returned json | Threw string

definition MAX_ATTEMPTS :: nat where
  "MAX_ATTEMPTS = 5"

text \<open>
  The loop of lines 148 to 201, from attempt number \<open>attempt\<close> on, with the environment
  giving what each attempt observes. It runs \<open>setTimeout(resolve, 2000)\<close> after a
  response that is not done, returns \<open>null\<close> from the \<open>catch\<close> block at the last attempt,
  continues after an \<open>AbortError\<close> and rethrows any other error.
\<close>

function onboard_loop ::
  "(string \<Rightarrow> string) \<Rightarrow> (nat \<Rightarrow> attempt) \<Rightarrow> nat \<Rightarrow> outcome \<times> event list" where
  "onboard_loop trim env attempt =
     (if attempt \<le> MAX_ATTEMPTS then
        (case try_attempt trim (env attempt) of
           TryReturn projectId \<Rightarrow> (Returned projectId, [Fetch attempt])
         | TryNotDone \<Rightarrow>
             apsnd ((@) [Fetch attempt, Wait 2000]) (onboard_loop trim env (attempt + 1))
         | TryThrow name \<Rightarrow>
             if attempt = MAX_ATTEMPTS then (Returned JNull, [Fetch attempt])
             else if name = ''AbortError''
             then apsnd ((@) [Fetch attempt]) (onboard_loop trim env (attempt + 1))
             else (Threw name, [Fetch attempt]))
      else (Returned JNull, []))"
  by pat_completeness auto
termination
  by (relation "measure (\<lambda>(trim, env, attempt). MAX_ATTEMPTS + 1 - attempt)") auto

declare onboard_loop.simps [simp del]

definition onboardUser :: "(string \<Rightarrow> string) \<Rightarrow> (nat \<Rightarrow> attempt) \<Rightarrow> outcome \<times> event list" where
  "onboardUser trim env = onboard_loop trim env 1"

text \<open>The events of attempt \<open>i\<close> when the loop goes through it.\<close>

definition attempt_events :: "(string \<Rightarrow> string) \<Rightarrow> (nat \<Rightarrow> attempt) \<Rightarrow> nat \<Rightarrow> event list" where
  "attempt_events trim env i =
     Fetch i # (if try_attempt trim (env i) = TryNotDone then [Wait 2000] else [])"

section \<open>The translator on an explicit store\<close>

text \<open>
  The same function of \<^verbatim>\<open>src/src/lib/initCloudSync.js\<close>, once more.
  Whether the translator mutates its argument depends on which objects it writes to,
  so here objects and arrays live in a store and values refer to them by address. The
  store is the list of the objects allocated so far; the address of an object is its
  index, \<open>alloc\<close> appends, and a write replaces the object at an address. The
  functions below are the translator's, line by line, with every allocation, read and
  write on the store made explicit. A result \<open>(None, h)\<close> is a thrown \<open>TypeError\<close>
  together with the store at the time of the throw.
\<close>

type_synonym addr = nat

datatype val = VUndef | VNull | VBool bool | VNum real | VStr string | VRef addr

datatype obj = Obj "(string \<times> val) list" | Arr "val list"

type_synonym heap = "obj list"

fun truthy_v :: "val \<Rightarrow> bool" where
  "truthy_v VUndef = False"
| "truthy_v VNull = False"
| "truthy_v (VBool b) = b"
| "truthy_v (VNum n) = (n \<noteq> 0)"
| "truthy_v (VStr s) = (s \<noteq> [])"
| "truthy_v (VRef a) = True"

definition nullish_v :: "val \<Rightarrow> bool" where
  "nullish_v v = (v = VUndef \<or> v = VNull)"

definition deref :: "heap \<Rightarrow> addr \<Rightarrow> obj option" where
  "deref h a = (if a < length h then Some (h ! a) else None)"

definition alloc :: "obj \<Rightarrow> heap \<Rightarrow> addr \<times> heap" where
  "alloc ob h = (length h, h @ [ob])"

text \<open>
  \<open>field_h h v k\<close> is the value of \<open>v.k\<close> for \<open>v\<close> neither \<open>null\<close> nor \<open>undefined\<close>, as
  \<open>field\<close> above. \<open>push_h\<close> is \<open>arr.push(v)\<close>, which throws when \<open>arr\<close> is not an array;
  \<open>set_prop_h\<close> and \<open>delete_prop_h\<close> are \<open>o.k = v\<close> and \<open>delete o.k\<close> on an object.
\<close>

definition field_h :: "heap \<Rightarrow> val \<Rightarrow> string \<Rightarrow> val" where
  "field_h h v k =
     (case v of
        VRef a \<Rightarrow>
          (case deref h a of
             Some (Obj kvs) \<Rightarrow> (case map_of kvs k of None \<Rightarrow> VUndef | Some x \<Rightarrow> x)
           | _ \<Rightarrow> VUndef)
      | _ \<Rightarrow> VUndef)"

definition push_h :: "val \<Rightarrow> val \<Rightarrow> heap \<Rightarrow> heap option" where
  "push_h arr v h =
     (case arr of
        VRef a \<Rightarrow>
          (case deref h a of
             Some (Arr xs) \<Rightarrow> Some (h[a := Arr (xs @ [v])])
           | _ \<Rightarrow> None)
      | _ \<Rightarrow> None)"

definition set_prop_h :: "addr \<Rightarrow> string \<Rightarrow> val \<Rightarrow> heap \<Rightarrow> heap" where
  "set_prop_h a k v h =
     (case deref h a of
        Some (Obj kvs) \<Rightarrow> h[a := Obj (AList.update k v kvs)]
      | _ \<Rightarrow> h)"

definition delete_prop_h :: "addr \<Rightarrow> string \<Rightarrow> heap \<Rightarrow> heap" where
  "delete_prop_h a k h =
     (case deref h a of
        Some (Obj kvs) \<Rightarrow> h[a := Obj (AList.delete k kvs)]
      | _ \<Rightarrow> h)"

text \<open>\<open>xs.map(f)\<close> over the elements \<open>xs\<close> holds when the call starts, with a callback
  that allocates and may throw.\<close>

fun map_h :: "(val \<Rightarrow> heap \<Rightarrow> val option \<times> heap) \<Rightarrow> val list \<Rightarrow> heap \<Rightarrow> val list option \<times> heap" where
  "map_h f [] h = (Some [], h)"
| "map_h f (x # xs) h =
     (case f x h of
        (None, h1) \<Rightarrow> (None, h1)
      | (Some y, h1) \<Rightarrow>
          (case map_h f xs h1 of
             (None, h2) \<Rightarrow> (None, h2)
           | (Some ys, h2) \<Rightarrow> (Some (y # ys), h2)))"

text \<open>Lines 70 to 74 and 69 to 75: each rewritten part is a new object, the mapped content
  a new array.\<close>

definition convert_part_h :: "val \<Rightarrow> heap \<Rightarrow> val option \<times> heap" where
  "convert_part_h c h =
     (if nullish_v c then (None, h)
      else if field_h h c ''type'' = VStr ''input_text''
      then (let (a, h1) = alloc (Obj [(''type'', VStr ''text''), (''text'', field_h h c ''text'')]) h
            in (Some (VRef a), h1))
      else if field_h h c ''type'' = VStr ''output_text''
      then (let (a, h1) = alloc (Obj [(''type'', VStr ''text''), (''text'', field_h h c ''text'')]) h
            in (Some (VRef a), h1))
      else (Some c, h))"

definition convert_content_h :: "val \<Rightarrow> heap \<Rightarrow> val option \<times> heap" where
  "convert_content_h c h =
     (case c of
        VRef a \<Rightarrow>
          (case deref h a of
             Some (Arr cs) \<Rightarrow>
               (case map_h convert_part_h cs h of
                  (None, h1) \<Rightarrow> (None, h1)
                | (Some cs', h1) \<Rightarrow> (let (a', h2) = alloc (Arr cs') h1 in (Some (VRef a'), h2)))
           | _ \<Rightarrow> (Some c, h))
      | _ \<Rightarrow> (Some c, h))"

text \<open>
  The loop's variables: \<open>result\<close> (the address of the copy made at line 41),
  \<open>currentAssistantMsg\<close> and \<open>pendingToolResults\<close>. \<open>result.messages\<close> and
  \<open>currentAssistantMsg.tool_calls\<close> are read from the store at every use, as the source
  does.
\<close>

record hstate =
  h_result :: addr
  h_currentAssistantMsg :: val
  h_pendingToolResults :: val

text \<open>Lines 56 to 66 (and 98 to 108): the two flushes. The inner \<open>for ... of\<close> pushes the
  elements the pending array holds when the flush starts.\<close>

fun push_all_h :: "val \<Rightarrow> val list \<Rightarrow> heap \<Rightarrow> heap option" where
  "push_all_h arr [] h = Some h"
| "push_all_h arr (x # xs) h =
     (case push_h arr x h of None \<Rightarrow> None | Some h1 \<Rightarrow> push_all_h arr xs h1)"

definition flush_assistant_h :: "hstate \<Rightarrow> heap \<Rightarrow> hstate option \<times> heap" where
  "flush_assistant_h s h =
     (if truthy_v (h_currentAssistantMsg s) then
        (case push_h (field_h h (VRef (h_result s)) ''messages'') (h_currentAssistantMsg s) h of
           None \<Rightarrow> (None, h)
         | Some h1 \<Rightarrow> (Some (s\<lparr>h_currentAssistantMsg := VNull\<rparr>), h1))
      else (Some s, h))"

definition pending_items :: "heap \<Rightarrow> val \<Rightarrow> val list" where
  "pending_items h p =
     (case p of
        VRef a \<Rightarrow> (case deref h a of Some (Arr xs) \<Rightarrow> xs | _ \<Rightarrow> [])
      | _ \<Rightarrow> [])"

definition flush_pending_h :: "hstate \<Rightarrow> heap \<Rightarrow> hstate option \<times> heap" where
  "flush_pending_h s h =
     (if length (pending_items h (h_pendingToolResults s)) > 0 then
        (case push_all_h (field_h h (VRef (h_result s)) ''messages'')
                (pending_items h (h_pendingToolResults s)) h of
           None \<Rightarrow> (None, h)
         | Some h1 \<Rightarrow>
             (let (p, h2) = alloc (Arr []) h1
              in (Some (s\<lparr>h_pendingToolResults := VRef p\<rparr>), h2)))
      else (Some s, h))"

definition flush_h :: "hstate \<Rightarrow> heap \<Rightarrow> hstate option \<times> heap" where
  "flush_h s h =
     (case flush_assistant_h s h of
        (None, h1) \<Rightarrow> (None, h1)
      | (Some s1, h1) \<Rightarrow> flush_pending_h s1 h1)"

text \<open>One iteration, lines 54 to 119.\<close>

definition step_h ::
  "(heap \<Rightarrow> val \<Rightarrow> val) \<Rightarrow> hstate \<Rightarrow> val \<Rightarrow> heap \<Rightarrow> hstate option \<times> heap" where
  "step_h stringify s item h =
     (if nullish_v item then (None, h)
      else if field_h h item ''type'' = VStr ''message'' then
        (case flush_h s h of
           (None, h1) \<Rightarrow> (None, h1)
         | (Some s1, h1) \<Rightarrow>
             (case convert_content_h (field_h h1 item ''content'') h1 of
                (None, h2) \<Rightarrow> (None, h2)
              | (Some content, h2) \<Rightarrow>
                  (let (m, h3) = alloc (Obj [(''role'', field_h h2 item ''role''),
                                             (''content'', content)]) h2
                   in case push_h (field_h h3 (VRef (h_result s1)) ''messages'') (VRef m) h3 of
                        None \<Rightarrow> (None, h3)
                      | Some h4 \<Rightarrow> (Some s1, h4))))
      else if field_h h item ''type'' = VStr ''function_call'' then
        (let (s1, h1) =
               (if \<not> truthy_v (h_currentAssistantMsg s) then
                  (let (tc, h') = alloc (Arr []) h;
                       (c, h'') = alloc (Obj [(''role'', VStr ''assistant''), (''content'', VNull),
                                              (''tool_calls'', VRef tc)]) h'
                   in (s\<lparr>h_currentAssistantMsg := VRef c\<rparr>, h''))
                else (s, h));
             (f, h2) = alloc (Obj [(''name'', field_h h1 item ''name''),
                                   (''arguments'', field_h h1 item ''arguments'')]) h1;
             (call, h3) = alloc (Obj [(''id'', field_h h2 item ''call_id''),
                                      (''type'', VStr ''function''),
                                      (''function'', VRef f)]) h2
         in case push_h (field_h h3 (h_currentAssistantMsg s1) ''tool_calls'') (VRef call) h3 of
              None \<Rightarrow> (None, h3)
            | Some h4 \<Rightarrow> (Some s1, h4))
      else if field_h h item ''type'' = VStr ''function_call_output'' then
        (case flush_h s h of
           (None, h1) \<Rightarrow> (None, h1)
         | (Some s1, h1) \<Rightarrow>
             (let out = field_h h1 item ''output'';
                  (m, h2) = alloc (Obj [(''role'', VStr ''tool''),
                                        (''tool_call_id'', field_h h1 item ''call_id''),
                                        (''content'', (case out of VStr x \<Rightarrow> out
                                                       | _ \<Rightarrow> stringify h1 out))]) h1
              in case push_h (field_h h2 (VRef (h_result s1)) ''messages'') (VRef m) h2 of
                   None \<Rightarrow> (None, h2)
                 | Some h3 \<Rightarrow> (Some s1, h3)))
      else (Some s, h))"

text \<open>The \<open>i\<close>-th value a \<open>for ... of\<close> over \<open>v\<close> yields in the heap \<open>h\<close>, if any.\<close>

definition iterable_h :: "heap \<Rightarrow> val \<Rightarrow> bool" where
  "iterable_h h v =
     (case v of
        VStr s \<Rightarrow> True
      | VRef a \<Rightarrow> (case deref h a of Some (Arr xs) \<Rightarrow> True | _ \<Rightarrow> False)
      | _ \<Rightarrow> False)"

definition item_at :: "heap \<Rightarrow> val \<Rightarrow> nat \<Rightarrow> val option" where
  "item_at h v i =
     (case v of
        VStr s \<Rightarrow> (if i < length s then Some (VStr [s ! i]) else None)
      | VRef a \<Rightarrow>
          (case deref h a of
             Some (Arr xs) \<Rightarrow> (if i < length xs then Some (xs ! i) else None)
           | _ \<Rightarrow> None)
      | _ \<Rightarrow> None)"

text \<open>
  The loop of line 53 reads the iterated array from the store at every iteration, as
  the array iterator does: it ends when the index reaches the array's current length.
  That it ends at all is not granted by its form (a loop body pushing to the iterated
  array would run forever), so the function is partial, \<open>None\<close> standing for a run
  that does not return; its totality on the translator's runs is proved below.
\<close>

partial_function (option) loop_h ::
  "(heap \<Rightarrow> val \<Rightarrow> val) \<Rightarrow> val \<Rightarrow> nat \<Rightarrow> hstate \<Rightarrow> heap \<Rightarrow> (hstate option \<times> heap) option" where
  "loop_h stringify input i s h =
     (case item_at h input i of
        None \<Rightarrow> Some (Some s, h)
      | Some item \<Rightarrow>
          (case step_h stringify s item h of
             (None, h1) \<Rightarrow> Some (None, h1)
           | (Some s1, h1) \<Rightarrow> loop_h stringify input (i + 1) s1 h1))"

declare loop_h.simps [code]

text \<open>Lines 133 to 146.\<close>

definition convert_tool_h :: "val \<Rightarrow> heap \<Rightarrow> val option \<times> heap" where
  "convert_tool_h tool h =
     (if nullish_v tool then (None, h)
      else if truthy_v (field_h h tool ''function'') then (Some tool, h)
      else (let (f, h1) = alloc (Obj [(''name'', field_h h tool ''name''),
                                      (''description'', field_h h tool ''description''),
                                      (''parameters'', field_h h tool ''parameters''),
                                      (''strict'', field_h h tool ''strict'')]) h;
                (t, h2) = alloc (Obj [(''type'', VStr ''function''), (''function'', VRef f)]) h1
            in (Some (VRef t), h2)))"

definition convert_tools_h :: "val \<Rightarrow> addr \<Rightarrow> heap \<Rightarrow> unit option \<times> heap" where
  "convert_tools_h body result h =
     (case field_h h body ''tools'' of
        VRef a \<Rightarrow>
          (case deref h a of
             Some (Arr ts) \<Rightarrow>
               (case map_h convert_tool_h ts h of
                  (None, h1) \<Rightarrow> (None, h1)
                | (Some ts', h1) \<Rightarrow>
                    (let (a', h2) = alloc (Arr ts') h1
                     in (Some (), set_prop_h result ''tools'' (VRef a') h2)))
           | _ \<Rightarrow> (Some (), h))
      | _ \<Rightarrow> (Some (), h))"

text \<open>Lines 149 to 154.\<close>

definition cleanup_h :: "addr \<Rightarrow> heap \<Rightarrow> heap" where
  "cleanup_h result h =
     delete_prop_h result ''reasoning'' (delete_prop_h result ''store''
       (delete_prop_h result ''prompt_cache_key'' (delete_prop_h result ''include''
         (delete_prop_h result ''instructions'' (delete_prop_h result ''input'' h)))))"

text \<open>\<open>{...body}\<close> copies the own properties of an object (line 41); lines 123 to 156
  follow the loop.\<close>

definition own_props :: "heap \<Rightarrow> val \<Rightarrow> (string \<times> val) list" where
  "own_props h v =
     (case v of
        VRef a \<Rightarrow> (case deref h a of Some (Obj kvs) \<Rightarrow> kvs | _ \<Rightarrow> [])
      | _ \<Rightarrow> [])"

definition finish_h :: "val \<Rightarrow> hstate \<Rightarrow> heap \<Rightarrow> val option \<times> heap" where
  "finish_h body s h =
     (case (if truthy_v (h_currentAssistantMsg s)
            then push_h (field_h h (VRef (h_result s)) ''messages'') (h_currentAssistantMsg s) h
            else Some h) of
        None \<Rightarrow> (None, h)
      | Some h1 \<Rightarrow>
          (case (if length (pending_items h1 (h_pendingToolResults s)) > 0
                 then push_all_h (field_h h1 (VRef (h_result s)) ''messages'')
                        (pending_items h1 (h_pendingToolResults s)) h1
                 else Some h1) of
             None \<Rightarrow> (None, h1)
           | Some h2 \<Rightarrow>
               (case convert_tools_h body (h_result s) h2 of
                  (None, h3) \<Rightarrow> (None, h3)
                | (Some u, h3) \<Rightarrow> (Some (VRef (h_result s)), cleanup_h (h_result s) h3))))"

text \<open>Lines 41 to 42, 45 to 47 and 50 to 51.\<close>

definition new_result :: "val \<Rightarrow> heap \<Rightarrow> addr \<times> heap" where
  "new_result body h =
     (let (result, h1) = alloc (Obj (own_props h body)) h;
          (m, h2) = alloc (Arr []) h1
      in (result, set_prop_h result ''messages'' (VRef m) h2))"

definition push_instructions :: "val \<Rightarrow> addr \<Rightarrow> heap \<Rightarrow> unit option \<times> heap" where
  "push_instructions body result h =
     (if truthy_v (field_h h body ''instructions'') then
        (let (sys, h1) = alloc (Obj [(''role'', VStr ''system''),
                                     (''content'', field_h h body ''instructions'')]) h
         in case push_h (field_h h1 (VRef result) ''messages'') (VRef sys) h1 of
              None \<Rightarrow> (None, h1)
            | Some h2 \<Rightarrow> (Some (), h2))
      else (Some (), h))"

definition start_h :: "val \<Rightarrow> heap \<Rightarrow> hstate option \<times> heap" where
  "start_h body h =
     (let (result, h1) = new_result body h
      in case push_instructions body result h1 of
           (None, h2) \<Rightarrow> (None, h2)
         | (Some u, h2) \<Rightarrow>
             (let (p, h3) = alloc (Arr []) h2
              in (Some \<lparr>h_result = result, h_currentAssistantMsg = VNull,
                        h_pendingToolResults = VRef p\<rparr>, h3)))"

text \<open>
  The translator on the store. \<open>JSON.stringify\<close> reads the store and is taken as a
  parameter, as above.
\<close>

definition openaiResponsesToOpenAIRequest_h ::
  "(heap \<Rightarrow> val \<Rightarrow> val) \<Rightarrow> val \<Rightarrow> val \<Rightarrow> val \<Rightarrow> val \<Rightarrow> heap \<Rightarrow> (val option \<times> heap) option" where
  "openaiResponsesToOpenAIRequest_h stringify model body stream credentials h =
     (if nullish_v body then Some (None, h)
      else if \<not> truthy_v (field_h h body ''input'') then Some (Some body, h)
      else
        (case start_h body h of
           (None, h1) \<Rightarrow> Some (None, h1)
         | (Some s0, h1) \<Rightarrow>
             if \<not> iterable_h h1 (field_h h1 body ''input'') then Some (None, h1)
             else (case loop_h stringify (field_h h1 body ''input'') 0 s0 h1 of
                     None \<Rightarrow> None
                   | Some (None, h2) \<Rightarrow> Some (None, h2)
                   | Some (Some s, h2) \<Rightarrow> Some (finish_h body s h2))))"

text \<open>
  The frame vocabulary. \<open>val_ok h v\<close>: \<open>v\<close> is not a dangling reference. \<open>keeps n h h'\<close>:
  the store \<open>h'\<close> extends \<open>h\<close> and holds, at the first \<open>n\<close> addresses, what \<open>h\<close> holds.
  \<open>arr_at\<close>, \<open>owns\<close> and \<open>loop_inv\<close> say that the arrays the loop pushes to (the result's
  \<open>messages\<close>, the open assistant message's \<open>tool_calls\<close>) and the pending array sit
  at addresses from \<open>n\<close> on; \<open>grows\<close> is \<open>keeps\<close> together with the preservation of these
  facts.
\<close>

definition val_ok :: "heap \<Rightarrow> val \<Rightarrow> bool" where
  "val_ok h v = (case v of VRef a \<Rightarrow> a < length h | _ \<Rightarrow> True)"

definition arr_at :: "nat \<Rightarrow> heap \<Rightarrow> addr \<Rightarrow> bool" where
  "arr_at n h a \<longleftrightarrow> n \<le> a \<and> a < length h \<and> (\<exists>xs. h ! a = Arr xs)"

definition owns :: "nat \<Rightarrow> heap \<Rightarrow> val \<Rightarrow> string \<Rightarrow> bool" where
  "owns n h v k \<longleftrightarrow>
     (\<exists>a kvs t. v = VRef a \<and> n \<le> a \<and> a < length h \<and> h ! a = Obj kvs \<and>
                 map_of kvs k = Some (VRef t) \<and> arr_at n h t)"

definition grows :: "nat \<Rightarrow> heap \<Rightarrow> heap \<Rightarrow> bool" where
  "grows n h h' \<longleftrightarrow>
     length h \<le> length h' \<and> take n h' = take n h \<and>
     (\<forall>a. arr_at n h a \<longrightarrow> arr_at n h' a) \<and>
     (\<forall>v k. owns n h v k \<longrightarrow> owns n h' v k)"

definition loop_inv :: "nat \<Rightarrow> hstate \<Rightarrow> heap \<Rightarrow> bool" where
  "loop_inv n s h \<longleftrightarrow>
     owns n h (VRef (h_result s)) ''messages'' \<and>
     (h_currentAssistantMsg s = VNull \<or> owns n h (h_currentAssistantMsg s) ''tool_calls'') \<and>
     (\<exists>p. h_pendingToolResults s = VRef p \<and> arr_at n h p)"

definition keeps :: "nat \<Rightarrow> heap \<Rightarrow> heap \<Rightarrow> bool" where
  "keeps n h h' \<longleftrightarrow> length h \<le> length h' \<and> take n h' = take n h"

definition n_items :: "heap \<Rightarrow> val \<Rightarrow> nat" where
  "n_items h v =
     (case v of
        VStr s \<Rightarrow> length s
      | VRef a \<Rightarrow> (case deref h a of Some (Arr xs) \<Rightarrow> length xs | _ \<Rightarrow> 0)
      | _ \<Rightarrow> 0)"

section \<open>The project-id service: one fetch per connection at a time\<close>

text \<open>
  \<open>getProjectIdForConnection\<close> of \<^verbatim>\<open>src/unnamed/part_001\<close> runs on
  JavaScript's single thread: the code between two
  \<open>await\<close>s is atomic. A call runs lines 31 to 65 in one piece (the inner \<open>async\<close>
  function runs up to its \<open>await\<close>, that is, it issues the fetch); when the fetch
  settles, lines 49 to 61 run in one piece. The module's state is the cache, the
  registry of pending fetches, the promises created so far (\<open>None\<close> while pending, the
  value once resolved; a promise is its index), the continuations awaiting a fetch
  (for each such promise, the connection id and the token of the call that started
  it), the number of fetches issued, and the time \<open>Date.now()\<close> reads. Connection ids
  and tokens are strings, falsy when empty.
\<close>

type_synonym connectionId = string
type_synonym accessToken = string
type_synonym promise = nat

record registry =
  projectIdCache :: "connectionId \<rightharpoonup> json \<times> nat"
  pendingFetches :: "connectionId \<rightharpoonup> promise"
  promises :: "json option list"
  awaiting :: "promise \<rightharpoonup> connectionId \<times> accessToken"
  issued :: nat
  clock :: nat

definition init_registry :: registry where
  "init_registry =
     \<lparr>projectIdCache = Map.empty, pendingFetches = Map.empty, promises = [],
      awaiting = Map.empty, issued = 0, clock = 0\<rparr>"

definition CACHE_TTL_MS :: int where
  "CACHE_TTL_MS = 60 * 60 * 1000"

text \<open>
  What a call returns. \<open>getProjectIdForConnection\<close> is an \<open>async\<close> function, so every call
  returns a promise of its own, a new object each time. That promise is either resolved
  at once with a value (\<open>return null\<close>, \<open>return cached.projectId\<close>), or it follows the
  promise \<open>p\<close> of the inner \<open>async\<close> function that awaits the fetch, that is, it settles
  with whatever \<open>p\<close> settles with (both \<open>return pendingFetches.get(connectionId)\<close> and
  \<open>return fetchPromise\<close>). The numbers of type \<open>promise\<close> name the inner promises only.
  What \<open>fetchProjectId\<close> does in the end: it resolves to a value (a project id, or
  \<open>null\<close>) or it rejects.
\<close>

datatype call_result = Immediate json | Follows promise

datatype fetch_outcome = Fetched json | FetchThrew

text \<open>Lines 34 to 37: the cached project id, when there is one younger than the TTL.\<close>

definition fresh_entry :: "registry \<Rightarrow> connectionId \<Rightarrow> json option" where
  "fresh_entry s c =
     (case projectIdCache s c of
        None \<Rightarrow> None
      | Some (projectId, fetchedAt) \<Rightarrow>
          if int (clock s) - int fetchedAt < CACHE_TTL_MS then Some projectId else None)"

text \<open>Lines 31 to 65, up to the \<open>await\<close> at line 47.\<close>

definition getProjectIdForConnection ::
  "connectionId \<Rightarrow> accessToken \<Rightarrow> registry \<Rightarrow> call_result \<times> registry" where
  "getProjectIdForConnection c tok s =
     (if c = [] \<or> tok = [] then (Immediate JNull, s)
      else case fresh_entry s c of
        Some projectId \<Rightarrow> (Immediate projectId, s)
      | None \<Rightarrow>
          (case pendingFetches s c of
             Some p \<Rightarrow> (Follows p, s)
           | None \<Rightarrow>
               (let p = length (promises s)
                in (Follows p,
                    s\<lparr>promises := promises s @ [None],
                      awaiting := (awaiting s)(p \<mapsto> (c, tok)),
                      issued := Suc (issued s),
                      pendingFetches := (pendingFetches s)(c \<mapsto> p)\<rparr>))))"

text \<open>
  Lines 47 to 61, from the \<open>await\<close> on, for the promise \<open>p\<close> whose fetch settles with
  \<open>out\<close>: the cache is written for a truthy project id, the promise resolves to the
  project id or to \<open>null\<close> (also when the fetch rejects: the \<open>catch\<close> returns \<open>null\<close>),
  and the \<open>finally\<close> block deletes the registry entry of the connection.
\<close>

definition settle :: "promise \<Rightarrow> fetch_outcome \<Rightarrow> registry \<Rightarrow> registry" where
  "settle p out s =
     (case awaiting s p of
        None \<Rightarrow> s
      | Some (c, tok) \<Rightarrow>
          (let s1 = (case out of
                       Fetched projectId \<Rightarrow>
                         if truthy projectId
                         then s\<lparr>projectIdCache := (projectIdCache s)(c \<mapsto> (projectId, clock s)),
                                promises := (promises s)[p := Some projectId]\<rparr>
                         else s\<lparr>promises := (promises s)[p := Some JNull]\<rparr>
                     | FetchThrew \<Rightarrow> s\<lparr>promises := (promises s)[p := Some JNull]\<rparr>)
           in s1\<lparr>pendingFetches := (pendingFetches s1)(c := None),
                 awaiting := (awaiting s1)(p := None)\<rparr>))"

definition invalidateProjectId :: "connectionId \<Rightarrow> registry \<Rightarrow> registry" where
  "invalidateProjectId c s = s\<lparr>projectIdCache := (projectIdCache s)(c := None)\<rparr>"

text \<open>
  The eventual result of a call, as far as it is known in the state \<open>s\<close>: the value the
  promise the call returned is resolved with, \<open>None\<close> while that promise is pending. A
  promise that follows \<open>p\<close> is resolved with the value of \<open>p\<close> a few microtasks after \<open>p\<close>
  is; no code of the module runs in between, and the model does not count them.
\<close>

definition eventual :: "registry \<Rightarrow> call_result \<Rightarrow> json option" where
  "eventual s r =
     (case r of
        Immediate v \<Rightarrow> Some v
      | Follows p \<Rightarrow> if p < length (promises s) then promises s ! p else None)"

text \<open>
  What can happen to the module, one atomic action at a time: a call, the settling of
  a fetch, an invalidation (lines 72 to 74), and the time \<open>Date.now()\<close> reads changing to
  \<open>t\<close>. The code does not control that time: \<open>Date.now()\<close> reads the system's wall clock,
  which can be set back, so \<open>t\<close> is any number.
\<close>

datatype action =
    CallAct connectionId accessToken
  | SettleAct promise fetch_outcome
  | InvalidateAct connectionId
  | ClockAct nat

fun act :: "action \<Rightarrow> registry \<Rightarrow> registry" where
  "act (CallAct c tok) s = snd (getProjectIdForConnection c tok s)"
| "act (SettleAct p out) s = settle p out s"
| "act (InvalidateAct c) s = invalidateProjectId c s"
| "act (ClockAct t) s = s\<lparr>clock := t\<rparr>"

fun run :: "action list \<Rightarrow> registry \<Rightarrow> registry" where
  "run [] s = s"
| "run (a # as) s = run as (act a s)"

text \<open>
  The time does not run backwards along the actions \<open>as\<close>, started in the state \<open>s\<close>.
\<close>

fun clock_forward :: "action list \<Rightarrow> registry \<Rightarrow> bool" where
  "clock_forward [] s = True"
| "clock_forward (ClockAct t # as) s = (clock s \<le> t \<and> clock_forward as (act (ClockAct t) s))"
| "clock_forward (a # as) s = clock_forward as (act a s)"

text \<open>
  The invariant of the reachable states, whatever the clock does: a registry entry
  belongs to a continuation that awaits its fetch; a continuation that awaits its
  fetch has its registry entry, and its promise exists and is pending.
\<close>

definition registry_inv :: "registry \<Rightarrow> bool" where
  "registry_inv s \<longleftrightarrow>
     (\<forall>c p. pendingFetches s c = Some p \<longrightarrow>
            (\<exists>tok. awaiting s p = Some (c, tok)) \<and> c \<noteq> []) \<and>
     (\<forall>p c tok. awaiting s p = Some (c, tok) \<longrightarrow>
            pendingFetches s c = Some p \<and> p < length (promises s) \<and> promises s ! p = None)"

section \<open>Basic facts\<close>

lemma read_prop_eq_None [simp]: "read_prop v k = None \<longleftrightarrow> nullish v"
  by (simp add: read_prop_def)

lemma read_prop_nullish [simp]: "nullish v \<Longrightarrow> read_prop v k = None"
  by (simp add: read_prop_def)

lemma read_prop_not_nullish [simp]: "\<not> nullish v \<Longrightarrow> read_prop v k = Some (field v k)"
  by (simp add: read_prop_def)

lemma field_nullish [simp]: "nullish v \<Longrightarrow> field v k = JUndef"
  by (auto simp: nullish_def)

lemma truthy_not_nullish: "truthy v \<Longrightarrow> \<not> nullish v"
  by (auto simp: nullish_def)

section \<open>The loop and the translator, step by step\<close>

lemma map_throwing_Nil [simp]: "map_throwing f [] = Some []"
  by (simp add: map_throwing_def)

lemma map_throwing_Cons [simp]:
  "map_throwing f (x # xs) =
     (case f x of None \<Rightarrow> None | Some y \<Rightarrow> map_option ((#) y) (map_throwing f xs))"
  unfolding map_throwing_def by simp

lemma map_throwing_eq_None: "map_throwing f xs = None \<longleftrightarrow> (\<exists>x \<in> set xs. f x = None)"
  by (induction xs) (auto split: option.splits)

lemma map_throwing_total:
  "(\<And>x. x \<in> set xs \<Longrightarrow> f x = Some (g x)) \<Longrightarrow> map_throwing f xs = Some (map g xs)"
  by (induction xs) auto

lemma convert_part_eq_None [simp]: "convert_part c = None \<longleftrightarrow> nullish c"
  by (cases "nullish c") (simp_all add: convert_part_def)

lemma convert_content_eq_None:
  "convert_content c = None \<longleftrightarrow> (\<exists>cs. c = JArr cs \<and> (\<exists>p \<in> set cs. nullish p))"
  by (cases c) (simp_all add: convert_content_def map_throwing_eq_None)

lemma message_msg_eq_None:
  "message_msg item = None \<longleftrightarrow>
     (\<exists>cs. field item ''content'' = JArr cs \<and> (\<exists>p \<in> set cs. nullish p))"
  by (simp add: message_msg_def bind_eq_None_conv convert_content_eq_None)

lemma step_eq_None: "step stringify s item = None \<longleftrightarrow> \<not> item_ok item"
proof (cases "nullish item")
  case True
  then show ?thesis by (simp add: step_def item_ok_def)
next
  case False
  then show ?thesis
    by (auto simp: step_def item_ok_def Let_def bind_eq_None_conv message_msg_eq_None
             split: json.splits)
qed

lemma loop_eq_None: "loop stringify s items = None \<longleftrightarrow> (\<exists>item \<in> set items. \<not> item_ok item)"
proof (induction items arbitrary: s)
  case Nil
  then show ?case by simp
next
  case (Cons item items)
  show ?case
  proof (cases "step stringify s item")
    case None
    then show ?thesis using step_eq_None [of stringify s item] by auto
  next
    case (Some s1)
    then have "item_ok item" using step_eq_None [of stringify s item] by simp
    with Some Cons.IH [of s1] show ?thesis by simp
  qed
qed

lemma loop_append:
  "loop stringify s (xs @ ys) =
     (case loop stringify s xs of None \<Rightarrow> None | Some s' \<Rightarrow> loop stringify s' ys)"
  by (induction xs arbitrary: s) (auto split: option.splits)

lemma flush_simps [simp]:
  "messages (flush_assistant s) =
     messages s @ (case currentAssistantMsg s of None \<Rightarrow> [] | Some tcs \<Rightarrow> [assistant_msg tcs])"
  "currentAssistantMsg (flush_assistant s) = None"
  "pendingToolResults (flush_assistant s) = pendingToolResults s"
  "messages (flush_pending s) = messages s @ pendingToolResults s"
  "currentAssistantMsg (flush_pending s) = currentAssistantMsg s"
  "pendingToolResults (flush_pending s) = []"
  by (auto simp: flush_assistant_def flush_pending_def split: option.splits)

lemma step_pending:
  "step stringify s item = Some s' \<Longrightarrow> pendingToolResults s = [] \<Longrightarrow> pendingToolResults s' = []"
  by (cases "nullish item") (auto simp: step_def Let_def split: if_splits bind_splits)

lemma loop_pending:
  "loop stringify s items = Some s' \<Longrightarrow> pendingToolResults s = [] \<Longrightarrow> pendingToolResults s' = []"
  by (induction items arbitrary: s) (auto split: option.splits dest: step_pending)

lemma step_messages_prefix:
  "step stringify s item = Some s' \<Longrightarrow> \<exists>B. messages s' = messages s @ B"
  by (cases "nullish item") (auto simp: step_def Let_def split: if_splits bind_splits)

lemma loop_messages_prefix:
  "loop stringify s items = Some s' \<Longrightarrow> \<exists>B. messages s' = messages s @ B"
proof (induction items arbitrary: s)
  case Nil
  then show ?case by simp
next
  case (Cons item items)
  then obtain s1 where 1: "step stringify s item = Some s1" and 2: "loop stringify s1 items = Some s'"
    by (auto split: option.splits)
  from step_messages_prefix [OF 1] Cons.IH [OF 2] show ?case by auto
qed

lemma flush_remaining_prefix: "\<exists>B. flush_remaining s = messages s @ B"
  by (auto simp: flush_remaining_def Let_def split: option.splits)

lemma convert_tools_eq_None:
  "convert_tools body result = None \<longleftrightarrow> \<not> tools_ok (field body ''tools'')"
  by (cases "field body ''tools''")
     (auto simp: convert_tools_def tools_ok_def map_throwing_eq_None convert_tool_def
                 bind_eq_None_conv)

lemma field_update [simp]:
  "field (JObj (AList.update k v kvs)) k' = (if k' = k then v else field (JObj kvs) k')"
  by (simp add: update_conv')

lemma field_delete [simp]:
  "field (JObj (AList.delete k kvs)) k' = (if k' = k then JUndef else field (JObj kvs) k')"
  by (simp add: delete_conv')

lemma field_cleanup:
  "field (JObj (cleanup kvs)) k =
     (if k \<in> {''input'', ''instructions'', ''include'', ''prompt_cache_key'', ''store'',
               ''reasoning''}
      then JUndef else field (JObj kvs) k)"
  unfolding cleanup_def field_delete by simp

lemma convert_tools_messages:
  "convert_tools body result = Some result' \<Longrightarrow>
     field (JObj result') ''messages'' = field (JObj result) ''messages''"
  by (cases "field body ''tools''")
     (auto simp: convert_tools_def simp del: field.simps split: if_splits)

text \<open>What the translator returns on an object whose \<open>input\<close> is truthy and iterable.\<close>

lemma translator_on_iterable:
  assumes "truthy (field body ''input'')" and "iterate (field body ''input'') = Some items"
  shows "\<exists>kvs. body = JObj kvs \<and>
           openaiResponsesToOpenAIRequest stringify model body stream credentials =
             (case loop stringify
                     \<lparr>messages = instructions_msgs body, currentAssistantMsg = None,
                      pendingToolResults = []\<rparr> items of
                None \<Rightarrow> None
              | Some s \<Rightarrow>
                  map_option (\<lambda>result. JObj (cleanup result))
                    (convert_tools body
                       (AList.update ''messages'' (JArr (flush_remaining s)) kvs)))"
proof (cases body)
  case (JObj kvs)
  with assms show ?thesis
    by (auto simp del: field.simps simp: Let_def split: option.splits bind_splits)
qed (use assms in simp_all)

lemma translator_on_array:
  assumes "field body ''input'' = JArr items"
  shows "\<exists>kvs. body = JObj kvs \<and>
           openaiResponsesToOpenAIRequest stringify model body stream credentials =
             (case loop stringify
                     \<lparr>messages = instructions_msgs body, currentAssistantMsg = None,
                      pendingToolResults = []\<rparr> items of
                None \<Rightarrow> None
              | Some s \<Rightarrow>
                  map_option (\<lambda>result. JObj (cleanup result))
                    (convert_tools body
                       (AList.update ''messages'' (JArr (flush_remaining s)) kvs)))"
  by (rule translator_on_iterable) (simp_all add: assms)

lemma translator_returns_iterable:
  assumes "truthy (field body ''input'')" and "iterate (field body ''input'') = Some items"
    and "\<forall>item \<in> set items. item_ok item"
    and "tools_ok (field body ''tools'')"
  shows "\<exists>kvs s result.
    body = JObj kvs \<and>
    loop stringify \<lparr>messages = instructions_msgs body, currentAssistantMsg = None,
                      pendingToolResults = []\<rparr> items = Some s \<and>
    convert_tools body (AList.update ''messages'' (JArr (flush_remaining s)) kvs) = Some result \<and>
    openaiResponsesToOpenAIRequest stringify model body stream credentials =
       Some (JObj (cleanup result)) \<and>
    messages_of (JObj (cleanup result)) = flush_remaining s"
proof -
  from translator_on_iterable [OF assms(1,2), of stringify model stream credentials]
  obtain kvs where b: "body = JObj kvs"
    and eq: "openaiResponsesToOpenAIRequest stringify model body stream credentials =
             (case loop stringify
                     \<lparr>messages = instructions_msgs body, currentAssistantMsg = None,
                      pendingToolResults = []\<rparr> items of
                None \<Rightarrow> None
              | Some s \<Rightarrow>
                  map_option (\<lambda>result. JObj (cleanup result))
                    (convert_tools body
                       (AList.update ''messages'' (JArr (flush_remaining s)) kvs)))"
    by blast
  from assms(3) obtain s where
    l: "loop stringify \<lparr>messages = instructions_msgs body, currentAssistantMsg = None,
                      pendingToolResults = []\<rparr> items = Some s"
    using loop_eq_None [of stringify _ items] by (metis not_Some_eq)
  from assms(4) obtain result where
    c: "convert_tools body (AList.update ''messages'' (JArr (flush_remaining s)) kvs) = Some result"
    using convert_tools_eq_None [of body] by (metis not_Some_eq)
  have m: "messages_of (JObj (cleanup result)) = flush_remaining s"
    using convert_tools_messages [OF c]
    by (simp add: messages_of_def field_cleanup del: field.simps)
  from eq l c have "openaiResponsesToOpenAIRequest stringify model body stream credentials =
       Some (JObj (cleanup result))" by simp
  with b l c m show ?thesis by blast
qed

lemma translator_returns:
  assumes "field body ''input'' = JArr items"
    and "\<forall>item \<in> set items. item_ok item"
    and "tools_ok (field body ''tools'')"
  shows "\<exists>kvs s result.
    body = JObj kvs \<and>
    loop stringify \<lparr>messages = instructions_msgs body, currentAssistantMsg = None,
                      pendingToolResults = []\<rparr> items = Some s \<and>
    convert_tools body (AList.update ''messages'' (JArr (flush_remaining s)) kvs) = Some result \<and>
    openaiResponsesToOpenAIRequest stringify model body stream credentials =
       Some (JObj (cleanup result)) \<and>
    messages_of (JObj (cleanup result)) = flush_remaining s"
  by (rule translator_returns_iterable) (simp_all add: assms)

lemma has_field_update [simp]:
  "has_field (JObj (AList.update k v kvs)) k' \<longleftrightarrow> k' = k \<or> has_field (JObj kvs) k'"
  by (auto simp: has_field_def dom_update)

lemma has_field_delete [simp]:
  "has_field (JObj (AList.delete k kvs)) k' \<longleftrightarrow> k' \<noteq> k \<and> has_field (JObj kvs) k'"
  by (auto simp: has_field_def AList.delete_eq)

lemma has_field_cleanup:
  "has_field (JObj (cleanup kvs)) k \<longleftrightarrow> k \<notin> responses_only_fields \<and> has_field (JObj kvs) k"
  unfolding cleanup_def has_field_delete responses_only_fields_def by auto

lemma convert_tools_fields:
  assumes "convert_tools body result = Some result'" and "k \<noteq> ''tools''"
  shows "field (JObj result') k = field (JObj result) k"
    and "has_field (JObj result') k = has_field (JObj result) k"
  using assms
  by (cases "field body ''tools''"; auto simp: convert_tools_def simp del: field.simps split: if_splits)+

lemma convert_tool_total:
  "\<not> nullish t \<Longrightarrow>
     convert_tool t = Some (if truthy (field t ''function'') then t else wrap_tool t)"
  by (simp add: convert_tool_def)

lemma convert_tools_array:
  assumes "field body ''tools'' = JArr ts" and "\<forall>t \<in> set ts. \<not> nullish t"
  shows "convert_tools body result =
           Some (AList.update ''tools''
                   (JArr (map (\<lambda>t. if truthy (field t ''function'') then t else wrap_tool t) ts))
                   result)"
proof -
  have "map_throwing convert_tool ts =
          Some (map (\<lambda>t. if truthy (field t ''function'') then t else wrap_tool t) ts)"
    using assms(2) by (intro map_throwing_total) (simp add: convert_tool_total)
  with assms(1) show ?thesis by (simp add: convert_tools_def)
qed

section \<open>Instructions become the first message\<close>

text \<open>
  C1. The scenario body (instructions "be terse", one user message with one
  \<open>input_text\<close> part "hi") is translated to the object whose only field is \<open>messages\<close>,
  holding the system message "be terse" and then the user message with the part
  rewritten to type \<open>text\<close>. In general, for every body with truthy (non-empty)
  instructions and an array \<open>input\<close> on which no read throws, the translator returns and
  the first entry of \<open>messages\<close> is the system message carrying the instructions.
\<close>

theorem instructions_first:
  "openaiResponsesToOpenAIRequest stringify model
     (JObj [(''instructions'', JStr ''be terse''),
            (''input'', JArr [JObj [(''type'', JStr ''message''), (''role'', JStr ''user''),
                                    (''content'', JArr [JObj [(''type'', JStr ''input_text''),
                                                              (''text'', JStr ''hi'')]])]])])
     stream credentials
   = Some (JObj [(''messages'',
                  JArr [JObj [(''role'', JStr ''system''), (''content'', JStr ''be terse'')],
                        JObj [(''role'', JStr ''user''),
                              (''content'', JArr [JObj [(''type'', JStr ''text''),
                                                        (''text'', JStr ''hi'')]])]])])
   \<and> (\<forall>body items.
        truthy (field body ''instructions'') \<and> field body ''input'' = JArr items \<and>
        (\<forall>item \<in> set items. item_ok item) \<and> tools_ok (field body ''tools'') \<longrightarrow>
        (\<exists>r rest.
           openaiResponsesToOpenAIRequest stringify model body stream credentials = Some r \<and>
           messages_of r =
             JObj [(''role'', JStr ''system''), (''content'', field body ''instructions'')] # rest))"
proof (intro conjI allI impI)
  show "openaiResponsesToOpenAIRequest stringify model
     (JObj [(''instructions'', JStr ''be terse''),
            (''input'', JArr [JObj [(''type'', JStr ''message''), (''role'', JStr ''user''),
                                    (''content'', JArr [JObj [(''type'', JStr ''input_text''),
                                                              (''text'', JStr ''hi'')]])]])])
     stream credentials
   = Some (JObj [(''messages'',
                  JArr [JObj [(''role'', JStr ''system''), (''content'', JStr ''be terse'')],
                        JObj [(''role'', JStr ''user''),
                              (''content'', JArr [JObj [(''type'', JStr ''text''),
                                                        (''text'', JStr ''hi'')]])]])])"
    by (simp add: instructions_msgs_def step_def message_msg_def convert_content_def
          convert_part_def nullish_def flush_remaining_def convert_tools_def cleanup_def)
next
  fix body items
  assume a: "truthy (field body ''instructions'') \<and> field body ''input'' = JArr items \<and>
        (\<forall>item \<in> set items. item_ok item) \<and> tools_ok (field body ''tools'')"
  then obtain kvs s result where
    l: "loop stringify \<lparr>messages = instructions_msgs body, currentAssistantMsg = None,
                      pendingToolResults = []\<rparr> items = Some s"
    and r: "openaiResponsesToOpenAIRequest stringify model body stream credentials =
       Some (JObj (cleanup result))"
    and m: "messages_of (JObj (cleanup result)) = flush_remaining s"
    using translator_returns [of body items stringify model stream credentials] by blast
  from loop_messages_prefix [OF l] flush_remaining_prefix [of s] a
  obtain rest where "flush_remaining s =
      JObj [(''role'', JStr ''system''), (''content'', field body ''instructions'')] # rest"
    by (auto simp: instructions_msgs_def)
  with r m show "\<exists>r rest.
           openaiResponsesToOpenAIRequest stringify model body stream credentials = Some r \<and>
           messages_of r =
             JObj [(''role'', JStr ''system''), (''content'', field body ''instructions'')] # rest"
    by auto
qed


theorem instructions_first_witness:
  "truthy (field (JObj [(''instructions'', JStr ''be brief''),
                        (''input'', JArr [JObj [(''type'', JStr ''function_call''),
                                                (''call_id'', JStr ''c1''),
                                                (''name'', JStr ''f''),
                                                (''arguments'', JStr ''{}'')]])])
             ''instructions'')
   \<and> field (JObj [(''instructions'', JStr ''be brief''),
                   (''input'', JArr [JObj [(''type'', JStr ''function_call''),
                                           (''call_id'', JStr ''c1''),
                                           (''name'', JStr ''f''),
                                           (''arguments'', JStr ''{}'')]])])
        ''input''
       = JArr [JObj [(''type'', JStr ''function_call''), (''call_id'', JStr ''c1''),
                     (''name'', JStr ''f''), (''arguments'', JStr ''{}'')]]
   \<and> item_ok (JObj [(''type'', JStr ''function_call''), (''call_id'', JStr ''c1''),
                     (''name'', JStr ''f''), (''arguments'', JStr ''{}'')])
   \<and> tools_ok (field (JObj [(''instructions'', JStr ''be brief''),
                             (''input'', JArr [JObj [(''type'', JStr ''function_call''),
                                                     (''call_id'', JStr ''c1''),
                                                     (''name'', JStr ''f''),
                                                     (''arguments'', JStr ''{}'')]])])
                  ''tools'')
   \<and> (\<exists>r rest.
         openaiResponsesToOpenAIRequest (\<lambda>v. JUndef) JNull
           (JObj [(''instructions'', JStr ''be brief''),
                  (''input'', JArr [JObj [(''type'', JStr ''function_call''),
                                          (''call_id'', JStr ''c1''),
                                          (''name'', JStr ''f''),
                                          (''arguments'', JStr ''{}'')]])])
           JNull JNull = Some r
         \<and> messages_of r =
             JObj [(''role'', JStr ''system''), (''content'', JStr ''be brief'')] # rest)"
  using instructions_first [of "\<lambda>v. JUndef" JNull JNull JNull, THEN conjunct2, rule_format,
          of "JObj [(''instructions'', JStr ''be brief''),
                    (''input'', JArr [JObj [(''type'', JStr ''function_call''),
                                            (''call_id'', JStr ''c1''),
                                            (''name'', JStr ''f''),
                                            (''arguments'', JStr ''{}'')]])]"
             "[JObj [(''type'', JStr ''function_call''), (''call_id'', JStr ''c1''),
                     (''name'', JStr ''f''), (''arguments'', JStr ''{}'')]]"]
  by (simp add: item_ok_def nullish_def tools_ok_def)

section \<open>A call followed by its output\<close>

lemma step_function_call:
  assumes "\<not> nullish item" and "field item ''type'' = JStr ''function_call''"
  shows "step stringify s item =
           Some (s\<lparr>currentAssistantMsg :=
                    Some ((case currentAssistantMsg s of None \<Rightarrow> [] | Some tcs \<Rightarrow> tcs)
                          @ [tool_call item])\<rparr>)"
  using assms by (simp add: step_def)

lemma step_function_call_output:
  assumes "\<not> nullish item" and "field item ''type'' = JStr ''function_call_output''"
  shows "step stringify s item =
           Some (flush_pending (flush_assistant s)
                   \<lparr>messages := messages (flush_pending (flush_assistant s))
                                 @ [tool_result stringify item]\<rparr>)"
  using assms by (simp add: step_def)

lemma call_then_output:
  assumes "\<not> nullish fc" and "field fc ''type'' = JStr ''function_call''"
    and "\<not> nullish fco" and "field fco ''type'' = JStr ''function_call_output''"
    and "pendingToolResults s = []"
  shows "\<exists>s'. loop stringify s [fc, fco] = Some s' \<and>
           messages s' =
             messages s @ [assistant_msg ((case currentAssistantMsg s of
                                             None \<Rightarrow> [] | Some tcs \<Rightarrow> tcs) @ [tool_call fc]),
                           tool_result stringify fco] \<and>
           currentAssistantMsg s' = None \<and> pendingToolResults s' = []"
  using assms
  by (simp add: step_function_call step_function_call_output)

text \<open>
  C2. Let the input list hold a \<open>function_call\<close> item immediately followed by a
  \<open>function_call_output\<close> item with the same \<open>call_id\<close> (no read throwing). Then the
  translator returns, and \<open>messages\<close> holds, next to each other, an assistant message
  whose \<open>tool_calls\<close> ends with the call (id the \<open>call_id\<close>, name and arguments the
  item's) and the tool message with that \<open>call_id\<close>, whose content is the output
  itself when it is a string and \<open>JSON.stringify\<close> of it otherwise. The tool message is
  not buffered: once the loop has consumed the output item, the two messages are the
  last two of the messages array, no assistant message is open and nothing is pending.
\<close>

theorem call_output_adjacent:
  assumes "field body ''input'' = JArr (pre @ [fc, fco] @ post)"
    and "\<forall>item \<in> set (pre @ [fc, fco] @ post). item_ok item"
    and "tools_ok (field body ''tools'')"
    and "field fc ''type'' = JStr ''function_call''"
    and "field fco ''type'' = JStr ''function_call_output''"
    and "field fco ''call_id'' = field fc ''call_id''"
  shows "\<exists>r A B tcs s.
           openaiResponsesToOpenAIRequest stringify model body stream credentials = Some r \<and>
           messages_of r =
             A @ [JObj [(''role'', JStr ''assistant''), (''content'', JNull),
                        (''tool_calls'',
                         JArr (tcs @ [JObj [(''id'', field fc ''call_id''),
                                            (''type'', JStr ''function''),
                                            (''function'',
                                             JObj [(''name'', field fc ''name''),
                                                   (''arguments'', field fc ''arguments'')])]]))],
                  JObj [(''role'', JStr ''tool''), (''tool_call_id'', field fc ''call_id''),
                        (''content'', (case field fco ''output'' of
                                         JStr x \<Rightarrow> JStr x
                                       | v \<Rightarrow> stringify v))]] @ B \<and>
           loop stringify \<lparr>messages = instructions_msgs body, currentAssistantMsg = None,
                            pendingToolResults = []\<rparr> (pre @ [fc, fco]) = Some s \<and>
           messages s = take (length A + 2) (messages_of r) \<and>
           currentAssistantMsg s = None \<and> pendingToolResults s = []"
proof -
  let ?init = "\<lparr>messages = instructions_msgs body, currentAssistantMsg = None,
               pendingToolResults = []\<rparr>"
  from translator_returns [OF assms(1,2,3), of stringify model stream credentials]
  obtain kvs s3 result where
    l: "loop stringify ?init (pre @ [fc, fco] @ post) = Some s3"
    and r: "openaiResponsesToOpenAIRequest stringify model body stream credentials =
       Some (JObj (cleanup result))"
    and m: "messages_of (JObj (cleanup result)) = flush_remaining s3"
    by blast
  from l obtain s0 where l0: "loop stringify ?init pre = Some s0"
    and l1: "loop stringify s0 ([fc, fco] @ post) = Some s3"
    by (auto simp: loop_append split: option.splits)
  from l1 obtain s2 where l2: "loop stringify s0 [fc, fco] = Some s2"
    and l3: "loop stringify s2 post = Some s3"
    unfolding loop_append by (auto split: option.splits)
  have p0: "pendingToolResults s0 = []"
    using loop_pending [OF l0] by simp
  have nn: "\<not> nullish fc" "\<not> nullish fco"
    using assms(2) by (auto simp: item_ok_def)
  from call_then_output [OF nn(1) assms(4) nn(2) assms(5) p0, of stringify] l2
  obtain tcs where
    m2: "messages s2 = messages s0 @ [assistant_msg (tcs @ [tool_call fc]),
                                      tool_result stringify fco]"
    and c2: "currentAssistantMsg s2 = None" and p2: "pendingToolResults s2 = []"
    by auto
  from loop_messages_prefix [OF l3] flush_remaining_prefix [of s3]
  obtain B where fr: "flush_remaining s3 = messages s2 @ B"
    by auto
  have l02: "loop stringify ?init (pre @ [fc, fco]) = Some s2"
    using l0 l2 by (simp add: loop_append)
  have out: "(case field fco ''output'' of JStr x \<Rightarrow> field fco ''output''
              | _ \<Rightarrow> stringify (field fco ''output'')) =
             (case field fco ''output'' of JStr x \<Rightarrow> JStr x | v \<Rightarrow> stringify v)"
    by (cases "field fco ''output''") simp_all
  show ?thesis
  proof (intro exI conjI)
    show "openaiResponsesToOpenAIRequest stringify model body stream credentials =
            Some (JObj (cleanup result))"
      by (rule r)
    show "loop stringify ?init (pre @ [fc, fco]) = Some s2" by (rule l02)
    show "currentAssistantMsg s2 = None" by (rule c2)
    show "pendingToolResults s2 = []" by (rule p2)
    show "messages_of (JObj (cleanup result)) =
            messages s0 @ [JObj [(''role'', JStr ''assistant''), (''content'', JNull),
                        (''tool_calls'',
                         JArr (tcs @ [JObj [(''id'', field fc ''call_id''),
                                            (''type'', JStr ''function''),
                                            (''function'',
                                             JObj [(''name'', field fc ''name''),
                                                   (''arguments'', field fc ''arguments'')])]]))],
                  JObj [(''role'', JStr ''tool''), (''tool_call_id'', field fc ''call_id''),
                        (''content'', (case field fco ''output'' of
                                         JStr x \<Rightarrow> JStr x
                                       | v \<Rightarrow> stringify v))]] @ B"
      unfolding m fr m2 assistant_msg_def tool_call_def tool_result_def assms(6) out
      by simp
    show "messages s2 = take (length (messages s0) + 2) (messages_of (JObj (cleanup result)))"
      unfolding m fr m2 by simp
  qed
qed


theorem call_output_adjacent_witness:
  "field (JObj [(''input'',
                 JArr ([JObj [(''type'', JStr ''message''), (''role'', JStr ''user''),
                              (''content'', JStr ''add'')]]
                       @ [JObj [(''type'', JStr ''function_call''), (''call_id'', JStr ''c1''),
                                (''name'', JStr ''add''), (''arguments'', JStr ''{}'')],
                          JObj [(''type'', JStr ''function_call_output''),
                                (''call_id'', JStr ''c1''), (''output'', JStr ''3'')]]
                       @ []))]) ''input''
     = JArr ([JObj [(''type'', JStr ''message''), (''role'', JStr ''user''),
                    (''content'', JStr ''add'')]]
             @ [JObj [(''type'', JStr ''function_call''), (''call_id'', JStr ''c1''),
                      (''name'', JStr ''add''), (''arguments'', JStr ''{}'')],
                JObj [(''type'', JStr ''function_call_output''),
                      (''call_id'', JStr ''c1''), (''output'', JStr ''3'')]]
             @ [])
   \<and> item_ok (JObj [(''type'', JStr ''message''), (''role'', JStr ''user''),
                     (''content'', JStr ''add'')])
   \<and> item_ok (JObj [(''type'', JStr ''function_call''), (''call_id'', JStr ''c1''),
                     (''name'', JStr ''add''), (''arguments'', JStr ''{}'')])
   \<and> item_ok (JObj [(''type'', JStr ''function_call_output''),
                     (''call_id'', JStr ''c1''), (''output'', JStr ''3'')])
   \<and> (\<exists>r A B tcs.
         openaiResponsesToOpenAIRequest (\<lambda>v. JUndef) JNull
           (JObj [(''input'',
                   JArr ([JObj [(''type'', JStr ''message''), (''role'', JStr ''user''),
                                (''content'', JStr ''add'')]]
                         @ [JObj [(''type'', JStr ''function_call''), (''call_id'', JStr ''c1''),
                                  (''name'', JStr ''add''), (''arguments'', JStr ''{}'')],
                            JObj [(''type'', JStr ''function_call_output''),
                                  (''call_id'', JStr ''c1''), (''output'', JStr ''3'')]]
                         @ []))])
           JNull JNull = Some r
         \<and> messages_of r =
             A @ [JObj [(''role'', JStr ''assistant''), (''content'', JNull),
                        (''tool_calls'',
                         JArr (tcs @ [JObj [(''id'', JStr ''c1''), (''type'', JStr ''function''),
                                            (''function'',
                                             JObj [(''name'', JStr ''add''),
                                                   (''arguments'', JStr ''{}'')])]]))],
                  JObj [(''role'', JStr ''tool''), (''tool_call_id'', JStr ''c1''),
                        (''content'', JStr ''3'')]] @ B)"
proof -
  let ?m = "JObj [(''type'', JStr ''message''), (''role'', JStr ''user''),
                  (''content'', JStr ''add'')]"
  let ?fc = "JObj [(''type'', JStr ''function_call''), (''call_id'', JStr ''c1''),
                   (''name'', JStr ''add''), (''arguments'', JStr ''{}'')]"
  let ?fco = "JObj [(''type'', JStr ''function_call_output''),
                    (''call_id'', JStr ''c1''), (''output'', JStr ''3'')]"
  let ?body = "JObj [(''input'', JArr ([?m] @ [?fc, ?fco] @ []))]"
  have 1: "field ?body ''input'' = JArr ([?m] @ [?fc, ?fco] @ [])" by simp
  have ok: "item_ok ?m" "item_ok ?fc" "item_ok ?fco"
    by (simp_all add: item_ok_def nullish_def)
  then have 2: "\<forall>item \<in> set ([?m] @ [?fc, ?fco] @ []). item_ok item" by simp
  have 3: "tools_ok (field ?body ''tools'')" by (simp add: tools_ok_def)
  have 4: "field ?fc ''type'' = JStr ''function_call''" by simp
  have 5: "field ?fco ''type'' = JStr ''function_call_output''" by simp
  have 6: "field ?fco ''call_id'' = field ?fc ''call_id''" by simp
  from call_output_adjacent [OF 1 2 3 4 5 6, of "\<lambda>v. JUndef" JNull JNull JNull]
  have "\<exists>r A B tcs.
         openaiResponsesToOpenAIRequest (\<lambda>v. JUndef) JNull ?body JNull JNull = Some r
         \<and> messages_of r =
             A @ [JObj [(''role'', JStr ''assistant''), (''content'', JNull),
                        (''tool_calls'',
                         JArr (tcs @ [JObj [(''id'', JStr ''c1''), (''type'', JStr ''function''),
                                            (''function'',
                                             JObj [(''name'', JStr ''add''),
                                                   (''arguments'', JStr ''{}'')])]]))],
                  JObj [(''role'', JStr ''tool''), (''tool_call_id'', JStr ''c1''),
                        (''content'', JStr ''3'')]] @ B"
    by (simp del: openaiResponsesToOpenAIRequest.simps append.simps) blast
  with 1 ok show ?thesis by blast
qed

section \<open>Order of the flattened messages\<close>

lemma explode_assistant_msg [simp]: "explode (assistant_msg tcs) = map Call tcs"
  by (simp add: explode_def assistant_msg_def)

lemma explode_tool_result [simp]:
  "explode (tool_result stringify item) = [Whole (tool_result stringify item)]"
  by (simp add: explode_def tool_result_def)

lemma explode_message_msg:
  "message_msg item = Some m \<Longrightarrow> explode m = [Whole m]"
  by (auto simp: message_msg_def explode_def split: bind_splits)

lemma explode_instructions_msgs:
  "concat (map explode (instructions_msgs body)) = map Whole (instructions_msgs body)"
  by (simp add: instructions_msgs_def explode_def)

lemma state_atoms_flush [simp]:
  "state_atoms (flush_pending (flush_assistant s)) = state_atoms s"
  by (simp add: state_atoms_def split: option.splits)

lemma step_atoms:
  assumes "step stringify s item = Some s'" and "pendingToolResults s = []"
  shows "state_atoms s' =
           state_atoms s @ (case item_atom stringify item of None \<Rightarrow> [] | Some a \<Rightarrow> [a])"
proof -
  from assms have nn: "\<not> nullish item"
    by (auto simp: step_def split: bind_splits)
  consider (msg) "field item ''type'' = JStr ''message''"
    | (fc) "field item ''type'' = JStr ''function_call''"
    | (fco) "field item ''type'' = JStr ''function_call_output''"
    | (other) "field item ''type'' \<noteq> JStr ''message''"
        "field item ''type'' \<noteq> JStr ''function_call''"
        "field item ''type'' \<noteq> JStr ''function_call_output''"
    by blast
  then show ?thesis
  proof cases
    case msg
    with assms nn obtain m where m: "message_msg item = Some m"
      and s': "s' = flush_pending (flush_assistant s)
                      \<lparr>messages := messages (flush_pending (flush_assistant s)) @ [m]\<rparr>"
      by (auto simp: step_def Let_def split: bind_splits)
    have "state_atoms s' = state_atoms (flush_pending (flush_assistant s)) @ explode m"
      unfolding s' by (simp add: state_atoms_def)
    with m msg show ?thesis
      by (simp add: item_atom_def explode_message_msg)
  next
    case fc
    with assms nn have "s' = s\<lparr>currentAssistantMsg :=
                    Some ((case currentAssistantMsg s of None \<Rightarrow> [] | Some tcs \<Rightarrow> tcs)
                          @ [tool_call item])\<rparr>"
      by (simp add: step_def)
    with fc assms(2) show ?thesis
      by (simp add: state_atoms_def item_atom_def split: option.splits)
  next
    case fco
    with assms nn have s': "s' = flush_pending (flush_assistant s)
                   \<lparr>messages := messages (flush_pending (flush_assistant s))
                                 @ [tool_result stringify item]\<rparr>"
      by (simp add: step_def)
    have "state_atoms s' = state_atoms (flush_pending (flush_assistant s))
                           @ explode (tool_result stringify item)"
      unfolding s' by (simp add: state_atoms_def)
    with fco show ?thesis
      by (simp add: item_atom_def)
  next
    case other
    with assms nn have "s' = s"
      by (simp add: step_def)
    with other show ?thesis
      by (simp add: item_atom_def)
  qed
qed

lemma loop_atoms:
  "loop stringify s items = Some s' \<Longrightarrow> pendingToolResults s = [] \<Longrightarrow>
     state_atoms s' = state_atoms s @ List.map_filter (item_atom stringify) items"
proof (induction items arbitrary: s)
  case Nil
  then show ?case by simp
next
  case (Cons item items)
  then obtain s1 where 1: "step stringify s item = Some s1"
    and 2: "loop stringify s1 items = Some s'"
    by (auto split: option.splits)
  from step_atoms [OF 1 Cons.prems(2)] Cons.IH [OF 2 step_pending [OF 1 Cons.prems(2)]]
  show ?case
    by (simp split: option.splits)
qed

lemma flush_remaining_atoms: "concat (map explode (flush_remaining s)) = state_atoms s"
  by (simp add: flush_remaining_def state_atoms_def Let_def split: option.splits)

lemma step_reasoning:
  "field item ''type'' = JStr ''reasoning'' \<Longrightarrow> step stringify s item = Some s"
  by (cases "nullish item") (auto simp: step_def nullish_def)

lemma loop_without_reasoning:
  "loop stringify s (without_reasoning items) = loop stringify s items"
  by (induction items arbitrary: s)
     (auto simp: without_reasoning_def step_reasoning split: option.splits)

lemma item_atom_reasoning:
  "field item ''type'' = JStr ''reasoning'' \<Longrightarrow> item_atom stringify item = None"
  by (simp add: item_atom_def)

lemma cleanup_update_input:
  "cleanup (AList.update ''input'' v kvs) = cleanup kvs"
  by (simp add: cleanup_def delete_update_same)

lemma convert_tools_update_input:
  "convert_tools (JObj (AList.update ''input'' v kvs)) result = convert_tools (JObj kvs) result"
  by (simp add: convert_tools_def del: field.simps)

lemma convert_tools_delete_input:
  "map_option (AList.delete ''input'') (convert_tools body result) =
     convert_tools body (AList.delete ''input'' result)"
  by (cases "field body ''tools''")
     (auto simp: convert_tools_def option.map_comp comp_def delete_update)


lemma instructions_msgs_update_input:
  "instructions_msgs (JObj (AList.update ''input'' v kvs)) = instructions_msgs (JObj kvs)"
  by (simp add: instructions_msgs_def del: field.simps)

lemma cleanup_convert_tools:
  "map_option (\<lambda>res. JObj (cleanup res)) (convert_tools body result) =
     map_option (\<lambda>res. JObj (cleanup res)) (convert_tools body (AList.delete ''input'' result))"
proof -
  have "cleanup (AList.delete ''input'' res) = cleanup res" for res :: "(string \<times> json) list"
    by (simp add: cleanup_def delete_idem)
  then have "map_option (\<lambda>res. JObj (cleanup res)) (convert_tools body result) =
        map_option (\<lambda>res. JObj (cleanup res))
          (map_option (AList.delete ''input'') (convert_tools body result))"
    by (simp add: option.map_comp comp_def)
  then show ?thesis
    by (simp only: convert_tools_delete_input)
qed

lemma translator_update_input:
  "map_option (\<lambda>res. JObj (cleanup res))
     (convert_tools (JObj (AList.update ''input'' v kvs))
        (AList.update ''messages'' m (AList.update ''input'' v kvs))) =
   map_option (\<lambda>res. JObj (cleanup res))
     (convert_tools (JObj kvs) (AList.update ''messages'' m kvs))"
proof -
  have "AList.delete ''input'' (AList.update ''messages'' m (AList.update ''input'' v kvs)) =
        AList.delete ''input'' (AList.update ''messages'' m kvs)"
    by (simp add: delete_update delete_update_same)
  then show ?thesis
    using cleanup_convert_tools [of "JObj kvs" "AList.update ''messages'' m kvs"]
      cleanup_convert_tools [of "JObj kvs"
        "AList.update ''messages'' m (AList.update ''input'' v kvs)"]
    by (simp only: convert_tools_update_input)
qed

text \<open>
  C3. For every input list (no read throwing) the translator returns, and the atoms of
  \<open>messages\<close>, in order, are the system message, if any, followed by the atoms of the
  input items in input order: every \<open>message\<close>, \<open>function_call\<close> and
  \<open>function_call_output\<close> item gives exactly one atom and a \<open>reasoning\<close> item gives
  none. Moreover the body with the reasoning items removed from \<open>input\<close> is translated
  to the very same result.
\<close>

theorem order_preserved:
  assumes "field (JObj kvs) ''input'' = JArr items"
    and "\<forall>item \<in> set items. item_ok item"
    and "tools_ok (field (JObj kvs) ''tools'')"
  shows "\<exists>r. openaiResponsesToOpenAIRequest stringify model (JObj kvs) stream credentials
               = Some r \<and>
           concat (map explode (messages_of r)) =
             map Whole (instructions_msgs (JObj kvs))
             @ List.map_filter (item_atom stringify) items \<and>
           (\<forall>item \<in> set items.
              (field item ''type'' = JStr ''reasoning'' \<longrightarrow> item_atom stringify item = None) \<and>
              (field item ''type'' \<in> {JStr ''message'', JStr ''function_call'',
                                       JStr ''function_call_output''} \<longrightarrow>
                 item_atom stringify item \<noteq> None)) \<and>
           openaiResponsesToOpenAIRequest stringify model
             (JObj (AList.update ''input'' (JArr (without_reasoning items)) kvs))
             stream credentials = Some r"
proof -
  let ?init = "\<lparr>messages = instructions_msgs (JObj kvs), currentAssistantMsg = None,
               pendingToolResults = []\<rparr>"
  let ?kvs' = "AList.update ''input'' (JArr (without_reasoning items)) kvs"
  from translator_returns [OF assms, of stringify model stream credentials]
  obtain s result where
    l: "loop stringify ?init items = Some s"
    and c: "convert_tools (JObj kvs)
              (AList.update ''messages'' (JArr (flush_remaining s)) kvs) = Some result"
    and r: "openaiResponsesToOpenAIRequest stringify model (JObj kvs) stream credentials =
       Some (JObj (cleanup result))"
    and m: "messages_of (JObj (cleanup result)) = flush_remaining s"
    by blast
  have atoms: "concat (map explode (messages_of (JObj (cleanup result)))) =
                 map Whole (instructions_msgs (JObj kvs))
                 @ List.map_filter (item_atom stringify) items"
    unfolding m flush_remaining_atoms using loop_atoms [OF l]
    by (simp add: state_atoms_def explode_instructions_msgs)
  have each: "\<forall>item \<in> set items.
              (field item ''type'' = JStr ''reasoning'' \<longrightarrow> item_atom stringify item = None) \<and>
              (field item ''type'' \<in> {JStr ''message'', JStr ''function_call'',
                                       JStr ''function_call_output''} \<longrightarrow>
                 item_atom stringify item \<noteq> None)"
  proof
    fix item assume "item \<in> set items"
    with assms(2) have "item_ok item" by blast
    then have "field item ''type'' = JStr ''message'' \<Longrightarrow> message_msg item \<noteq> None"
      by (auto simp: item_ok_def message_msg_eq_None)
    then show "(field item ''type'' = JStr ''reasoning'' \<longrightarrow> item_atom stringify item = None) \<and>
              (field item ''type'' \<in> {JStr ''message'', JStr ''function_call'',
                                       JStr ''function_call_output''} \<longrightarrow>
                 item_atom stringify item \<noteq> None)"
      by (auto simp: item_atom_def)
  qed
  have i': "field (JObj ?kvs') ''input'' = JArr (without_reasoning items)"
    by (simp add: update_conv')
  from translator_on_array [OF i', of stringify model stream credentials]
  have "openaiResponsesToOpenAIRequest stringify model (JObj ?kvs') stream credentials =
          (case loop stringify ?init items of
             None \<Rightarrow> None
           | Some s \<Rightarrow>
               map_option (\<lambda>res. JObj (cleanup res))
                 (convert_tools (JObj ?kvs')
                    (AList.update ''messages'' (JArr (flush_remaining s)) ?kvs')))"
    by (simp only: json.inject instructions_msgs_update_input loop_without_reasoning simp_thms
          ex_simps)
  with l c have r': "openaiResponsesToOpenAIRequest stringify model (JObj ?kvs') stream
                       credentials = Some (JObj (cleanup result))"
    by (simp add: translator_update_input del: openaiResponsesToOpenAIRequest.simps field.simps)
  from r atoms each r' show ?thesis by blast
qed


theorem order_preserved_witness:
  "field (JObj [(''input'',
                 JArr [JObj [(''type'', JStr ''reasoning'')],
                       JObj [(''type'', JStr ''function_call''), (''call_id'', JStr ''c1''),
                             (''name'', JStr ''add''), (''arguments'', JStr ''{}'')],
                       JObj [(''type'', JStr ''function_call_output''),
                             (''call_id'', JStr ''c1''), (''output'', JStr ''3'')]])]) ''input''
     = JArr [JObj [(''type'', JStr ''reasoning'')],
             JObj [(''type'', JStr ''function_call''), (''call_id'', JStr ''c1''),
                   (''name'', JStr ''add''), (''arguments'', JStr ''{}'')],
             JObj [(''type'', JStr ''function_call_output''),
                   (''call_id'', JStr ''c1''), (''output'', JStr ''3'')]]
   \<and> item_ok (JObj [(''type'', JStr ''reasoning'')])
   \<and> item_ok (JObj [(''type'', JStr ''function_call''), (''call_id'', JStr ''c1''),
                     (''name'', JStr ''add''), (''arguments'', JStr ''{}'')])
   \<and> item_ok (JObj [(''type'', JStr ''function_call_output''),
                     (''call_id'', JStr ''c1''), (''output'', JStr ''3'')])
   \<and> (\<exists>r. openaiResponsesToOpenAIRequest (\<lambda>v. JUndef) JNull
              (JObj [(''input'',
                      JArr [JObj [(''type'', JStr ''reasoning'')],
                            JObj [(''type'', JStr ''function_call''), (''call_id'', JStr ''c1''),
                                  (''name'', JStr ''add''), (''arguments'', JStr ''{}'')],
                            JObj [(''type'', JStr ''function_call_output''),
                                  (''call_id'', JStr ''c1''), (''output'', JStr ''3'')]])])
              JNull JNull = Some r
          \<and> concat (map explode (messages_of r)) =
              [Call (JObj [(''id'', JStr ''c1''), (''type'', JStr ''function''),
                           (''function'', JObj [(''name'', JStr ''add''),
                                                (''arguments'', JStr ''{}'')])]),
               Whole (JObj [(''role'', JStr ''tool''), (''tool_call_id'', JStr ''c1''),
                            (''content'', JStr ''3'')])]
          \<and> openaiResponsesToOpenAIRequest (\<lambda>v. JUndef) JNull
              (JObj [(''input'',
                      JArr [JObj [(''type'', JStr ''function_call''), (''call_id'', JStr ''c1''),
                                  (''name'', JStr ''add''), (''arguments'', JStr ''{}'')],
                            JObj [(''type'', JStr ''function_call_output''),
                                  (''call_id'', JStr ''c1''), (''output'', JStr ''3'')]])])
              JNull JNull = Some r)"
proof -
  let ?r = "JObj [(''type'', JStr ''reasoning'')]"
  let ?fc = "JObj [(''type'', JStr ''function_call''), (''call_id'', JStr ''c1''),
                   (''name'', JStr ''add''), (''arguments'', JStr ''{}'')]"
  let ?fco = "JObj [(''type'', JStr ''function_call_output''),
                    (''call_id'', JStr ''c1''), (''output'', JStr ''3'')]"
  let ?kvs = "[(''input'', JArr [?r, ?fc, ?fco])]"
  have 1: "field (JObj ?kvs) ''input'' = JArr [?r, ?fc, ?fco]" by simp
  have ok: "item_ok ?r" "item_ok ?fc" "item_ok ?fco"
    by (simp_all add: item_ok_def nullish_def)
  then have 2: "\<forall>item \<in> set [?r, ?fc, ?fco]. item_ok item" by simp
  have 3: "tools_ok (field (JObj ?kvs) ''tools'')" by (simp add: tools_ok_def)
  have a: "List.map_filter (item_atom (\<lambda>v. JUndef)) [?r, ?fc, ?fco] =
             [Call (JObj [(''id'', JStr ''c1''), (''type'', JStr ''function''),
                           (''function'', JObj [(''name'', JStr ''add''),
                                                (''arguments'', JStr ''{}'')])]),
               Whole (JObj [(''role'', JStr ''tool''), (''tool_call_id'', JStr ''c1''),
                            (''content'', JStr ''3'')])]"
    by (simp add: item_atom_def tool_call_def tool_result_def)
  have i: "instructions_msgs (JObj ?kvs) = []" by (simp add: instructions_msgs_def)
  have u: "AList.update ''input'' (JArr (without_reasoning [?r, ?fc, ?fco])) ?kvs =
             [(''input'', JArr [?fc, ?fco])]"
    by (simp add: without_reasoning_def)
  from order_preserved [OF 1 2 3, of "\<lambda>v. JUndef" JNull JNull JNull]
  obtain r where
    "openaiResponsesToOpenAIRequest (\<lambda>v. JUndef) JNull (JObj ?kvs) JNull JNull = Some r"
    "concat (map explode (messages_of r)) =
       map Whole (instructions_msgs (JObj ?kvs))
       @ List.map_filter (item_atom (\<lambda>v. JUndef)) [?r, ?fc, ?fco]"
    "openaiResponsesToOpenAIRequest (\<lambda>v. JUndef) JNull
       (JObj (AList.update ''input'' (JArr (without_reasoning [?r, ?fc, ?fco])) ?kvs))
       JNull JNull = Some r"
    by blast
  then have "openaiResponsesToOpenAIRequest (\<lambda>v. JUndef) JNull (JObj ?kvs) JNull JNull = Some r
      \<and> concat (map explode (messages_of r)) =
              [Call (JObj [(''id'', JStr ''c1''), (''type'', JStr ''function''),
                           (''function'', JObj [(''name'', JStr ''add''),
                                                (''arguments'', JStr ''{}'')])]),
               Whole (JObj [(''role'', JStr ''tool''), (''tool_call_id'', JStr ''c1''),
                            (''content'', JStr ''3'')])]
      \<and> openaiResponsesToOpenAIRequest (\<lambda>v. JUndef) JNull
            (JObj [(''input'', JArr [?fc, ?fco])]) JNull JNull = Some r"
    unfolding a i u by simp
  with 1 ok show ?thesis by blast
qed

section \<open>Empty input list\<close>

text \<open>
  C4, as stated, at a body with an empty input list and the instructions \<open>""\<close>: the
  field is present, and the guard at line 45 tests its truth value, so the returned
  \<open>messages\<close> field is the empty array and not the array of the one system message.
\<close>

theorem empty_input_falsy_instructions_counterexample:
  "has_field (JObj [(''instructions'', JStr ''''), (''input'', JArr [])]) ''instructions''
   \<and> field (JObj [(''instructions'', JStr ''''), (''input'', JArr [])]) ''input'' = JArr []
   \<and> openaiResponsesToOpenAIRequest (\<lambda>v. JUndef) JNull
        (JObj [(''instructions'', JStr ''''), (''input'', JArr [])]) JNull JNull
      = Some (JObj [(''messages'', JArr [])])
   \<and> field (JObj [(''messages'', JArr [])]) ''messages''
      \<noteq> JArr [JObj [(''role'', JStr ''system''), (''content'', JStr '''')]]"
  by (simp add: has_field_def instructions_msgs_def flush_remaining_def convert_tools_def
        cleanup_def)

text \<open>
  C4, amended. For every body whose \<open>input\<close> is the empty list (and whose tools array, if
  any, holds no \<open>null\<close> entry) the translator returns a result that has a \<open>messages\<close>
  field, and that field is the array holding exactly the one system message carrying
  the instructions when \<open>instructions\<close> is truthy, and the empty array when
  \<open>instructions\<close> is absent or falsy.
\<close>

theorem empty_input_messages:
  assumes "field body ''input'' = JArr []" and "tools_ok (field body ''tools'')"
  shows "\<exists>r. openaiResponsesToOpenAIRequest stringify model body stream credentials = Some r \<and>
             has_field r ''messages'' \<and>
             field r ''messages'' =
               JArr (if truthy (field body ''instructions'')
                     then [JObj [(''role'', JStr ''system''),
                                 (''content'', field body ''instructions'')]]
                     else [])"
proof -
  from assms obtain kvs s result where
    l: "loop stringify \<lparr>messages = instructions_msgs body, currentAssistantMsg = None,
                      pendingToolResults = []\<rparr> [] = Some s"
    and c: "convert_tools body (AList.update ''messages'' (JArr (flush_remaining s)) kvs)
              = Some result"
    and r: "openaiResponsesToOpenAIRequest stringify model body stream credentials =
       Some (JObj (cleanup result))"
    using translator_returns [of body "[]" stringify model stream credentials] by auto
  from l have fr: "flush_remaining s = instructions_msgs body"
    by (auto simp: flush_remaining_def)
  have "field (JObj (cleanup result)) ''messages'' = field (JObj result) ''messages''"
    by (simp add: field_cleanup del: field.simps)
  also have "\<dots> = field (JObj (AList.update ''messages'' (JArr (flush_remaining s)) kvs))
                     ''messages''"
    by (rule convert_tools_messages [OF c])
  also have "\<dots> = JArr (instructions_msgs body)"
    by (simp add: field_update fr del: field.simps)
  finally have f: "field (JObj (cleanup result)) ''messages'' = JArr (instructions_msgs body)" .
  have "has_field (JObj result) ''messages''"
    using convert_tools_fields(2) [OF c, of "''messages''"] by simp
  then have h: "has_field (JObj (cleanup result)) ''messages''"
    by (simp add: has_field_cleanup responses_only_fields_def)
  show ?thesis
  proof (intro exI conjI)
    show "openaiResponsesToOpenAIRequest stringify model body stream credentials =
            Some (JObj (cleanup result))"
      by (rule r)
    show "has_field (JObj (cleanup result)) ''messages''" by (rule h)
    show "field (JObj (cleanup result)) ''messages'' =
            JArr (if truthy (field body ''instructions'')
                  then [JObj [(''role'', JStr ''system''),
                              (''content'', field body ''instructions'')]]
                  else [])"
      unfolding f instructions_msgs_def by (rule refl)
  qed
qed

theorem empty_input_messages_witness:
  "field (JObj [(''instructions'', JStr ''be terse''), (''input'', JArr [])]) ''input'' = JArr []
   \<and> tools_ok (field (JObj [(''instructions'', JStr ''be terse''), (''input'', JArr [])]) ''tools'')
   \<and> (\<exists>r. openaiResponsesToOpenAIRequest (\<lambda>v. JUndef) JNull
              (JObj [(''instructions'', JStr ''be terse''), (''input'', JArr [])]) JNull JNull
            = Some r
          \<and> has_field r ''messages''
          \<and> field r ''messages''
              = JArr [JObj [(''role'', JStr ''system''), (''content'', JStr ''be terse'')]])"
  using empty_input_messages
    [of "JObj [(''instructions'', JStr ''be terse''), (''input'', JArr [])]"
        "\<lambda>v. JUndef" JNull JNull JNull]
  by (simp add: tools_ok_def)

section \<open>Stripped and preserved fields\<close>

text \<open>
  C5, as stated, at a body whose \<open>input\<close> field is present and is the empty string:
  line 39 returns the body itself, which still has its \<open>input\<close> and \<open>store\<close> fields.
\<close>

theorem present_falsy_input_counterexample:
  "has_field (JObj [(''input'', JStr ''''), (''store'', JBool True)]) ''input''
   \<and> openaiResponsesToOpenAIRequest (\<lambda>v. JUndef) JNull
        (JObj [(''input'', JStr ''''), (''store'', JBool True)]) JNull JNull
      = Some (JObj [(''input'', JStr ''''), (''store'', JBool True)])
   \<and> has_field (JObj [(''input'', JStr ''''), (''store'', JBool True)]) ''store''"
  by (simp add: has_field_def)

text \<open>
  C5, amended. Whenever the translator returns \<open>r\<close> on a body whose \<open>input\<close> is truthy,
  \<open>r\<close> has none of the fields \<open>input\<close>, \<open>instructions\<close>, \<open>include\<close>,
  \<open>prompt_cache_key\<close>, \<open>store\<close>, \<open>reasoning\<close>, and every other field except \<open>messages\<close>
  and \<open>tools\<close> is present in \<open>r\<close> exactly when it is in the body, with the same value.
\<close>

theorem strips_responses_fields:
  assumes "truthy (field body ''input'')"
    and "openaiResponsesToOpenAIRequest stringify model body stream credentials = Some r"
  shows "(\<forall>k \<in> responses_only_fields. \<not> has_field r k) \<and>
         (\<forall>k. k \<notin> responses_only_fields \<and> k \<noteq> ''messages'' \<and> k \<noteq> ''tools'' \<longrightarrow>
               field r k = field body k \<and> has_field r k = has_field body k)"
proof -
  from assms(1) obtain kvs where b: "body = JObj kvs"
    by (cases body) simp_all
  from assms b obtain s result where
    c: "convert_tools body (AList.update ''messages'' (JArr (flush_remaining s)) kvs) = Some result"
    and r: "r = JObj (cleanup result)"
    by (auto simp del: field.simps simp: Let_def split: bind_splits)
  have 1: "\<forall>k \<in> responses_only_fields. \<not> has_field r k"
    by (simp add: r has_field_cleanup)
  have 2: "field r k = field body k \<and> has_field r k = has_field body k"
    if "k \<notin> responses_only_fields \<and> k \<noteq> ''messages'' \<and> k \<noteq> ''tools''" for k
    using that convert_tools_fields [OF c, of k]
    by (simp add: r b field_cleanup has_field_cleanup responses_only_fields_def del: field.simps)
  from 1 2 show ?thesis by blast
qed

theorem strips_responses_fields_witness:
  "truthy (field (JObj [(''model'', JStr ''m''), (''input'', JArr []), (''store'', JBool True),
                        (''temperature'', JNum 1)]) ''input'')
   \<and> openaiResponsesToOpenAIRequest (\<lambda>v. JUndef) JNull
        (JObj [(''model'', JStr ''m''), (''input'', JArr []), (''store'', JBool True),
               (''temperature'', JNum 1)]) JNull JNull
      = Some (JObj [(''model'', JStr ''m''), (''temperature'', JNum 1), (''messages'', JArr [])])
   \<and> \<not> has_field (JObj [(''model'', JStr ''m''), (''temperature'', JNum 1),
                        (''messages'', JArr [])]) ''store''
   \<and> field (JObj [(''model'', JStr ''m''), (''temperature'', JNum 1), (''messages'', JArr [])])
        ''temperature'' = JNum 1"
proof -
  have e: "openaiResponsesToOpenAIRequest (\<lambda>v. JUndef) JNull
        (JObj [(''model'', JStr ''m''), (''input'', JArr []), (''store'', JBool True),
               (''temperature'', JNum 1)]) JNull JNull
      = Some (JObj [(''model'', JStr ''m''), (''temperature'', JNum 1), (''messages'', JArr [])])"
    by (simp add: instructions_msgs_def flush_remaining_def convert_tools_def cleanup_def)
  have t: "truthy (field (JObj [(''model'', JStr ''m''), (''input'', JArr []),
                      (''store'', JBool True), (''temperature'', JNum 1)]) ''input'')"
    by simp
  from strips_responses_fields [OF t e] e t show ?thesis
    by (simp add: responses_only_fields_def)
qed

section \<open>The translator does not write to its argument\<close>

lemma grows_refl [simp]: "grows n h h"
  by (simp add: grows_def)

lemma grows_trans: "grows n h h1 \<Longrightarrow> grows n h1 h2 \<Longrightarrow> grows n h h2"
  by (auto simp: grows_def)

lemma arr_at_append: "arr_at n h a \<Longrightarrow> arr_at n (h @ [ob]) a"
  by (auto simp: arr_at_def nth_append)

lemma owns_append: "owns n h v k \<Longrightarrow> owns n (h @ [ob]) v k"
  unfolding owns_def by (auto simp: nth_append intro: arr_at_append)

lemma grows_alloc: "n \<le> length h \<Longrightarrow> grows n h (h @ [ob])"
  by (simp add: grows_def arr_at_append owns_append)

lemma arr_at_update_arr:
  "arr_at n h a \<Longrightarrow> arr_at n (h[m := Arr ys]) a"
  by (cases "a = m") (auto simp: arr_at_def)

lemma owns_update_arr:
  assumes "owns n h v k" and "arr_at n h m"
  shows "owns n (h[m := Arr ys]) v k"
proof -
  from assms(1) obtain a kvs t where v: "v = VRef a" and a: "n \<le> a" "a < length h"
    and o: "h ! a = Obj kvs" and k: "map_of kvs k = Some (VRef t)" and t: "arr_at n h t"
    unfolding owns_def by blast
  from assms(2) o have "a \<noteq> m" by (auto simp: arr_at_def)
  with a o have "h[m := Arr ys] ! a = Obj kvs" by simp
  with v a k arr_at_update_arr [OF t] show ?thesis
    unfolding owns_def by auto
qed

lemma grows_update_arr:
  "arr_at n h m \<Longrightarrow> grows n h (h[m := Arr ys])"
  unfolding grows_def
  by (intro conjI allI impI arr_at_update_arr owns_update_arr) (simp_all add: arr_at_def)

lemma push_owned:
  assumes "owns n h v k"
  shows "\<exists>h'. push_h (field_h h v k) x h = Some h' \<and> grows n h h'"
proof -
  from assms obtain a kvs t where v: "v = VRef a" and a: "a < length h"
    and o: "h ! a = Obj kvs" and k: "map_of kvs k = Some (VRef t)" and t: "arr_at n h t"
    unfolding owns_def by blast
  from t obtain xs where xs: "t < length h" "h ! t = Arr xs" by (auto simp: arr_at_def)
  have "field_h h v k = VRef t"
    using v a o k by (simp add: field_h_def deref_def)
  with xs have "push_h (field_h h v k) x h = Some (h[t := Arr (xs @ [x])])"
    by (simp add: push_h_def deref_def)
  with grows_update_arr [OF t] show ?thesis by simp
qed

lemma push_all_owned:
  assumes "owns n h v k"
  shows "\<exists>h'. push_all_h (field_h h v k) xs h = Some h' \<and> grows n h h'"
  using assms
proof (induction xs arbitrary: h)
  case Nil
  then show ?case by simp
next
  case (Cons x xs)
  from Cons.prems obtain a kvs t where v: "v = VRef a" and a: "a < length h"
    and o: "h ! a = Obj kvs" and k: "map_of kvs k = Some (VRef t)" and t: "arr_at n h t"
    unfolding owns_def by blast
  have f: "field_h h v k = VRef t"
    using v a o k by (simp add: field_h_def deref_def)
  from push_owned [OF Cons.prems, of x] obtain h1 where
    p: "push_h (field_h h v k) x h = Some h1" and g: "grows n h h1" by blast
  from g Cons.prems have o1: "owns n h1 v k" by (simp add: grows_def)
  then obtain a' kvs' t' where v': "v = VRef a'" and a': "a' < length h1"
    and o': "h1 ! a' = Obj kvs'" and k': "map_of kvs' k = Some (VRef t')"
    unfolding owns_def by blast
  from p f obtain ys where h1eq: "h1 = h[t := Arr ys]"
    by (auto simp: push_h_def deref_def split: if_splits option.splits obj.splits)
  from t o have "a \<noteq> t" by (auto simp: arr_at_def)
  with h1eq a o have "h1 ! a = Obj kvs" by simp
  with v a k h1eq have f1: "field_h h1 v k = VRef t"
    by (simp add: field_h_def deref_def)
  from Cons.IH [OF o1] obtain h2 where
    "push_all_h (field_h h1 v k) xs h1 = Some h2" "grows n h1 h2" by blast
  with p f f1 g show ?case
    by (auto intro: grows_trans)
qed

lemma grows_length: "grows n h h' \<Longrightarrow> n \<le> length h \<Longrightarrow> n \<le> length h'"
  by (simp add: grows_def)

lemma convert_part_h_grows:
  "n \<le> length h \<Longrightarrow> convert_part_h c h = (r, h') \<Longrightarrow> grows n h h'"
  by (auto simp: convert_part_h_def alloc_def grows_alloc split: if_splits)

lemma convert_tool_h_grows:
  assumes "n \<le> length h" and "convert_tool_h t h = (r, h')"
  shows "grows n h h'"
proof -
  have "grows n h ((h @ [x]) @ [y])" for x y
    using assms(1) by (intro grows_trans [OF grows_alloc grows_alloc]) simp_all
  with assms show ?thesis
    by (auto simp: convert_tool_h_def alloc_def split: if_splits)
qed

lemma map_h_grows:
  assumes "\<And>x h r h'. n \<le> length h \<Longrightarrow> f x h = (r, h') \<Longrightarrow> grows n h h'"
  shows "n \<le> length h \<Longrightarrow> map_h f xs h = (r, h') \<Longrightarrow> grows n h h'"
proof (induction xs arbitrary: h r h')
  case Nil
  then show ?case by simp
next
  case (Cons x xs)
  obtain r1 h1 where f: "f x h = (r1, h1)" by (cases "f x h")
  from assms [OF Cons.prems(1) f] have g1: "grows n h h1" .
  show ?case
  proof (cases r1)
    case None
    with f Cons.prems(2) g1 show ?thesis by simp
  next
    case (Some y)
    obtain r2 h2 where m: "map_h f xs h1 = (r2, h2)" by (cases "map_h f xs h1")
    from Cons.IH [OF grows_length [OF g1 Cons.prems(1)] m] have g2: "grows n h1 h2" .
    from f Some m Cons.prems(2) have "h' = h2"
      by (auto split: option.splits)
    with g1 g2 show ?thesis by (auto intro: grows_trans)
  qed
qed

lemma convert_content_h_grows:
  assumes "n \<le> length h" and "convert_content_h c h = (r, h')"
  shows "grows n h h'"
proof (cases "\<exists>a cs. c = VRef a \<and> deref h a = Some (Arr cs)")
  case False
  with assms(2) have "h' = h"
    by (auto simp: convert_content_h_def split: val.splits option.splits obj.splits)
  then show ?thesis by simp
next
  case True
  then obtain a cs where c: "c = VRef a" "deref h a = Some (Arr cs)" by blast
  obtain r1 h1 where m: "map_h convert_part_h cs h = (r1, h1)"
    by (cases "map_h convert_part_h cs h")
  from map_h_grows [of n convert_part_h, OF convert_part_h_grows assms(1) m]
  have g1: "grows n h h1" by simp
  show ?thesis
  proof (cases r1)
    case None
    with c m assms(2) g1 show ?thesis by (simp add: convert_content_h_def)
  next
    case (Some cs')
    with c m assms(2) have "h' = h1 @ [Arr cs']"
      by (auto simp: convert_content_h_def alloc_def)
    with g1 grows_alloc [OF grows_length [OF g1 assms(1)]] show ?thesis
      by (auto intro: grows_trans)
  qed
qed

lemma loop_inv_grows:
  "loop_inv n s h \<Longrightarrow> grows n h h' \<Longrightarrow> loop_inv n s h'"
  by (auto simp: loop_inv_def grows_def)

lemma flush_assistant_h_inv:
  assumes "loop_inv n s h"
  shows "\<exists>s' h'. flush_assistant_h s h = (Some s', h') \<and> grows n h h' \<and> loop_inv n s' h' \<and>
                  h_currentAssistantMsg s' = VNull"
proof (cases "truthy_v (h_currentAssistantMsg s)")
  case False
  with assms show ?thesis
    by (auto simp: flush_assistant_h_def loop_inv_def owns_def)
next
  case True
  from assms have "owns n h (VRef (h_result s)) ''messages''" by (simp add: loop_inv_def)
  from push_owned [OF this, of "h_currentAssistantMsg s"] obtain h' where
    p: "push_h (field_h h (VRef (h_result s)) ''messages'') (h_currentAssistantMsg s) h = Some h'"
    and g: "grows n h h'" by blast
  from loop_inv_grows [OF assms g] have "loop_inv n (s\<lparr>h_currentAssistantMsg := VNull\<rparr>) h'"
    by (simp add: loop_inv_def)
  with True p g show ?thesis
    by (simp add: flush_assistant_h_def)
qed

lemma flush_pending_h_inv:
  assumes "loop_inv n s h" and "n \<le> length h"
  shows "\<exists>s' h'. flush_pending_h s h = (Some s', h') \<and> grows n h h' \<and> loop_inv n s' h' \<and>
                  h_currentAssistantMsg s' = h_currentAssistantMsg s"
proof (cases "length (pending_items h (h_pendingToolResults s)) > 0")
  case False
  with assms show ?thesis
    by (auto simp: flush_pending_h_def)
next
  case True
  from assms have "owns n h (VRef (h_result s)) ''messages''" by (simp add: loop_inv_def)
  from push_all_owned [OF this, of "pending_items h (h_pendingToolResults s)"] obtain h1 where
    p: "push_all_h (field_h h (VRef (h_result s)) ''messages'')
          (pending_items h (h_pendingToolResults s)) h = Some h1"
    and g: "grows n h h1" by blast
  from grows_length [OF g assms(2)] have n1: "n \<le> length h1" .
  let ?s' = "s\<lparr>h_pendingToolResults := VRef (length h1)\<rparr>"
  have g2: "grows n h1 (h1 @ [Arr []])" by (rule grows_alloc [OF n1])
  from loop_inv_grows [OF loop_inv_grows [OF assms(1) g] g2]
  have "loop_inv n ?s' (h1 @ [Arr []])"
    using n1 by (simp add: loop_inv_def arr_at_def)
  with True p g g2 show ?thesis
    by (auto simp: flush_pending_h_def alloc_def intro: grows_trans)
qed

lemma flush_h_inv:
  assumes "loop_inv n s h" and "n \<le> length h"
  shows "\<exists>s' h'. flush_h s h = (Some s', h') \<and> grows n h h' \<and> loop_inv n s' h' \<and>
                  h_currentAssistantMsg s' = VNull"
proof -
  from flush_assistant_h_inv [OF assms(1)] obtain s1 h1 where
    1: "flush_assistant_h s h = (Some s1, h1)" "grows n h h1" "loop_inv n s1 h1"
       "h_currentAssistantMsg s1 = VNull" by blast
  from flush_pending_h_inv [OF 1(3) grows_length [OF 1(2) assms(2)]] obtain s2 h2 where
    2: "flush_pending_h s1 h1 = (Some s2, h2)" "grows n h1 h2" "loop_inv n s2 h2"
       "h_currentAssistantMsg s2 = h_currentAssistantMsg s1" by blast
  from 1 2 show ?thesis
    by (auto simp: flush_h_def intro: grows_trans)
qed

lemma push_message_inv:
  assumes "loop_inv n s h" and "n \<le> length h"
  shows "\<exists>h'. push_h (field_h (h @ [ob]) (VRef (h_result s)) ''messages'')
                 (VRef (length h)) (h @ [ob]) = Some h' \<and>
              grows n h h' \<and> loop_inv n s h'"
proof -
  have g1: "grows n h (h @ [ob])" by (rule grows_alloc [OF assms(2)])
  from loop_inv_grows [OF assms(1) g1] have i1: "loop_inv n s (h @ [ob])" .
  then have "owns n (h @ [ob]) (VRef (h_result s)) ''messages''" by (simp add: loop_inv_def)
  from push_owned [OF this, of "VRef (length h)"] obtain h' where
    p: "push_h (field_h (h @ [ob]) (VRef (h_result s)) ''messages'')
          (VRef (length h)) (h @ [ob]) = Some h'"
    and g2: "grows n (h @ [ob]) h'" by blast
  from p grows_trans [OF g1 g2] loop_inv_grows [OF i1 g2] show ?thesis by blast
qed

lemma step_h_message:
  assumes "loop_inv n s h" and "n \<le> length h"
    and "\<not> nullish_v item" and "field_h h item ''type'' = VStr ''message''"
  shows "\<exists>r h'. step_h stringify s item h = (r, h') \<and> grows n h h' \<and>
                 (\<forall>s'. r = Some s' \<longrightarrow> loop_inv n s' h')"
proof -
  from flush_h_inv [OF assms(1,2)] obtain s1 h1 where
    f: "flush_h s h = (Some s1, h1)" and g1: "grows n h h1" and i1: "loop_inv n s1 h1"
    by blast
  from grows_length [OF g1 assms(2)] have n1: "n \<le> length h1" .
  obtain rc h2 where c: "convert_content_h (field_h h1 item ''content'') h1 = (rc, h2)"
    by (cases "convert_content_h (field_h h1 item ''content'') h1")
  from convert_content_h_grows [OF n1 c] have g2: "grows n h1 h2" .
  from grows_length [OF g2 n1] have n2: "n \<le> length h2" .
  from loop_inv_grows [OF i1 g2] have i2: "loop_inv n s1 h2" .
  show ?thesis
  proof (cases rc)
    case None
    with assms(3,4) f c have "step_h stringify s item h = (None, h2)"
      by (simp add: step_h_def)
    with grows_trans [OF g1 g2] show ?thesis by simp
  next
    case (Some content)
    let ?ob = "Obj [(''role'', field_h h2 item ''role''), (''content'', content)]"
    from push_message_inv [OF i2 n2, of ?ob] obtain h4 where
      p: "push_h (field_h (h2 @ [?ob]) (VRef (h_result s1)) ''messages'')
            (VRef (length h2)) (h2 @ [?ob]) = Some h4"
      and g4: "grows n h2 h4" and i4: "loop_inv n s1 h4" by blast
    from assms(3,4) f c Some p have "step_h stringify s item h = (Some s1, h4)"
      by (simp add: step_h_def alloc_def)
    with grows_trans [OF g1 grows_trans [OF g2 g4]] i4 show ?thesis by simp
  qed
qed

lemma step_h_output:
  assumes "loop_inv n s h" and "n \<le> length h"
    and "\<not> nullish_v item" and "field_h h item ''type'' = VStr ''function_call_output''"
  shows "\<exists>r h'. step_h stringify s item h = (r, h') \<and> grows n h h' \<and>
                 (\<forall>s'. r = Some s' \<longrightarrow> loop_inv n s' h')"
proof -
  from flush_h_inv [OF assms(1,2)] obtain s1 h1 where
    f: "flush_h s h = (Some s1, h1)" and g1: "grows n h h1" and i1: "loop_inv n s1 h1"
    by blast
  from grows_length [OF g1 assms(2)] have n1: "n \<le> length h1" .
  let ?ob = "Obj [(''role'', VStr ''tool''), (''tool_call_id'', field_h h1 item ''call_id''),
                  (''content'', (case field_h h1 item ''output'' of
                                   VStr x \<Rightarrow> field_h h1 item ''output''
                                 | _ \<Rightarrow> stringify h1 (field_h h1 item ''output'')))]"
  from push_message_inv [OF i1 n1, of ?ob] obtain h3 where
    p: "push_h (field_h (h1 @ [?ob]) (VRef (h_result s1)) ''messages'')
          (VRef (length h1)) (h1 @ [?ob]) = Some h3"
    and g3: "grows n h1 h3" and i3: "loop_inv n s1 h3" by blast
  from assms(3,4) f p have "step_h stringify s item h = (Some s1, h3)"
    by (simp add: step_h_def alloc_def Let_def)
  with grows_trans [OF g1 g3] i3 show ?thesis by simp
qed

lemma open_assistant_inv:
  assumes "loop_inv n s h" and "n \<le> length h"
  shows "\<exists>s1 h1.
           (if \<not> truthy_v (h_currentAssistantMsg s) then
              (let (tc, h') = alloc (Arr []) h;
                   (c, h'') = alloc (Obj [(''role'', VStr ''assistant''), (''content'', VNull),
                                          (''tool_calls'', VRef tc)]) h'
               in (s\<lparr>h_currentAssistantMsg := VRef c\<rparr>, h''))
            else (s, h)) = (s1, h1) \<and>
           grows n h h1 \<and> loop_inv n s1 h1 \<and> owns n h1 (h_currentAssistantMsg s1) ''tool_calls''"
proof (cases "truthy_v (h_currentAssistantMsg s)")
  case True
  with assms(1) have "owns n h (h_currentAssistantMsg s) ''tool_calls''"
    by (auto simp: loop_inv_def)
  with True assms(1) show ?thesis by simp
next
  case False
  let ?h1 = "h @ [Arr []]"
  let ?ob = "Obj [(''role'', VStr ''assistant''), (''content'', VNull),
                  (''tool_calls'', VRef (length h))]"
  let ?h2 = "?h1 @ [?ob]"
  have g: "grows n h ?h2"
    using assms(2) by (intro grows_trans [OF grows_alloc grows_alloc]) simp_all
  have o: "owns n ?h2 (VRef (length ?h1)) ''tool_calls''"
    using assms(2) unfolding owns_def arr_at_def
    by (intro exI [of _ "length ?h1"] exI [of _ "length h"]
          exI [of _ "[(''role'', VStr ''assistant''), (''content'', VNull),
                      (''tool_calls'', VRef (length h))]"])
       (simp add: nth_append)
  from loop_inv_grows [OF assms(1) g] o
  have "loop_inv n (s\<lparr>h_currentAssistantMsg := VRef (length ?h1)\<rparr>) ?h2"
    by (simp add: loop_inv_def)
  with False g o show ?thesis
    by (simp add: alloc_def)
qed

lemma step_h_call:
  assumes "loop_inv n s h" and "n \<le> length h"
    and "\<not> nullish_v item" and "field_h h item ''type'' = VStr ''function_call''"
  shows "\<exists>r h'. step_h stringify s item h = (r, h') \<and> grows n h h' \<and>
                 (\<forall>s'. r = Some s' \<longrightarrow> loop_inv n s' h')"
proof -
  from open_assistant_inv [OF assms(1,2)] obtain s1 h1 where
    e: "(if \<not> truthy_v (h_currentAssistantMsg s) then
              (let (tc, h') = alloc (Arr []) h;
                   (c, h'') = alloc (Obj [(''role'', VStr ''assistant''), (''content'', VNull),
                                          (''tool_calls'', VRef tc)]) h'
               in (s\<lparr>h_currentAssistantMsg := VRef c\<rparr>, h''))
            else (s, h)) = (s1, h1)"
    and g1: "grows n h h1" and i1: "loop_inv n s1 h1"
    and o1: "owns n h1 (h_currentAssistantMsg s1) ''tool_calls''"
    by blast
  from grows_length [OF g1 assms(2)] have n1: "n \<le> length h1" .
  let ?f = "Obj [(''name'', field_h h1 item ''name''),
                 (''arguments'', field_h h1 item ''arguments'')]"
  let ?h2 = "h1 @ [?f]"
  let ?call = "Obj [(''id'', field_h ?h2 item ''call_id''), (''type'', VStr ''function''),
                    (''function'', VRef (length h1))]"
  let ?h3 = "?h2 @ [?call]"
  have g3: "grows n h1 ?h3"
    using n1 by (intro grows_trans [OF grows_alloc grows_alloc]) simp_all
  from g3 o1 have o3: "owns n ?h3 (h_currentAssistantMsg s1) ''tool_calls''"
    by (simp add: grows_def)
  from push_owned [OF o3, of "VRef (length ?h2)"] obtain h4 where
    p: "push_h (field_h ?h3 (h_currentAssistantMsg s1) ''tool_calls'') (VRef (length ?h2)) ?h3
          = Some h4"
    and g4: "grows n ?h3 h4" by blast
  have i4: "loop_inv n s1 h4"
    by (rule loop_inv_grows [OF loop_inv_grows [OF i1 g3] g4])
  from assms(3,4) e p have "step_h stringify s item h = (Some s1, h4)"
    unfolding step_h_def by (simp add: alloc_def)
  with grows_trans [OF g1 grows_trans [OF g3 g4]] i4 show ?thesis by simp
qed

lemma step_h_inv:
  assumes "loop_inv n s h" and "n \<le> length h"
  shows "\<exists>r h'. step_h stringify s item h = (r, h') \<and> grows n h h' \<and>
                 (\<forall>s'. r = Some s' \<longrightarrow> loop_inv n s' h')"
proof -
  consider (null) "nullish_v item"
    | (msg) "\<not> nullish_v item" "field_h h item ''type'' = VStr ''message''"
    | (fc) "\<not> nullish_v item" "field_h h item ''type'' = VStr ''function_call''"
    | (fco) "\<not> nullish_v item" "field_h h item ''type'' = VStr ''function_call_output''"
    | (other) "\<not> nullish_v item" "field_h h item ''type'' \<noteq> VStr ''message''"
        "field_h h item ''type'' \<noteq> VStr ''function_call''"
        "field_h h item ''type'' \<noteq> VStr ''function_call_output''"
    by blast
  then show ?thesis
  proof cases
    case null
    then show ?thesis by (simp add: step_h_def)
  next
    case msg
    then show ?thesis by (rule step_h_message [OF assms])
  next
    case fc
    then show ?thesis by (rule step_h_call [OF assms])
  next
    case fco
    then show ?thesis by (rule step_h_output [OF assms])
  next
    case other
    with assms(1) show ?thesis by (simp add: step_h_def)
  qed
qed

lemma grows_keeps: "grows n h h' \<Longrightarrow> keeps n h h'"
  by (simp add: grows_def keeps_def)

lemma keeps_refl [simp]: "keeps n h h"
  by (simp add: keeps_def)

lemma keeps_trans: "keeps n h h1 \<Longrightarrow> keeps n h1 h2 \<Longrightarrow> keeps n h h2"
  by (simp add: keeps_def)

lemma keeps_deref:
  assumes "keeps n h h'" and "a < n" and "n \<le> length h"
  shows "deref h' a = deref h a"
proof -
  from assms(1) have t: "take n h' = take n h" and l: "length h \<le> length h'"
    by (simp_all add: keeps_def)
  have "h' ! a = take n h' ! a" using assms(2) by (simp only: nth_take)
  also have "\<dots> = take n h ! a" by (simp only: t)
  also have "\<dots> = h ! a" using assms(2) by (simp only: nth_take)
  finally have "h' ! a = h ! a" .
  with assms(2,3) l show ?thesis by (simp add: deref_def)
qed

lemma keeps_field_h:
  "keeps n h h' \<Longrightarrow> n \<le> length h \<Longrightarrow> val_ok (take n h) v \<Longrightarrow> field_h h' v k = field_h h v k"
  by (cases v) (simp_all add: field_h_def val_ok_def keeps_deref)

lemma keeps_item_at:
  "keeps n h h' \<Longrightarrow> n \<le> length h \<Longrightarrow> val_ok (take n h) v \<Longrightarrow> item_at h' v i = item_at h v i"
  by (cases v) (simp_all add: item_at_def val_ok_def keeps_deref)

lemma keeps_n_items:
  "keeps n h h' \<Longrightarrow> n \<le> length h \<Longrightarrow> val_ok (take n h) v \<Longrightarrow> n_items h' v = n_items h v"
  by (cases v) (simp_all add: n_items_def val_ok_def keeps_deref)

lemma keeps_iterable_h:
  "keeps n h h' \<Longrightarrow> n \<le> length h \<Longrightarrow> val_ok (take n h) v \<Longrightarrow> iterable_h h' v = iterable_h h v"
  by (cases v) (simp_all add: iterable_h_def val_ok_def keeps_deref)

lemma item_at_None: "n_items h v \<le> i \<Longrightarrow> item_at h v i = None"
  by (auto simp: item_at_def n_items_def split: val.splits option.splits obj.splits)

lemma item_at_Some: "item_at h v i = Some x \<Longrightarrow> i < n_items h v"
  by (auto simp: item_at_def n_items_def split: val.splits option.splits obj.splits if_splits)

lemma loop_h_total:
  assumes "loop_inv n s h" and "n \<le> length h" and "val_ok (take n h) input"
  shows "\<exists>r h'. loop_h stringify input i s h = Some (r, h') \<and> grows n h h' \<and>
                 (\<forall>s'. r = Some s' \<longrightarrow> loop_inv n s' h')"
  using assms
proof (induction "n_items h input - i" arbitrary: i s h)
  case 0
  then have "item_at h input i = None" by (simp add: item_at_None)
  with "0.prems"(1) show ?case
    by (subst loop_h.simps) simp
next
  case (Suc k)
  show ?case
  proof (cases "item_at h input i")
    case None
    with Suc.prems(1) show ?thesis
      by (subst loop_h.simps) simp
  next
    case (Some item)
    from step_h_inv [OF Suc.prems(1,2), of stringify item] obtain r1 h1 where
      st: "step_h stringify s item h = (r1, h1)" and g1: "grows n h h1"
      and i1: "\<forall>s'. r1 = Some s' \<longrightarrow> loop_inv n s' h1" by blast
    show ?thesis
    proof (cases r1)
      case None
      with Some st g1 show ?thesis
        by (subst loop_h.simps) simp
    next
      case r1: (Some s1)
      from g1 have k1: "keeps n h h1" by (rule grows_keeps)
      from k1 Suc.prems(2) have t1: "take n h1 = take n h" by (simp add: keeps_def)
      from keeps_n_items [OF k1 Suc.prems(2,3)] Suc.hyps(2)
      have m: "k = n_items h1 input - (i + 1)" by simp
      from i1 r1 have inv1: "loop_inv n s1 h1" by simp
      from Suc.hyps(1) [OF m inv1 grows_length [OF g1 Suc.prems(2)]] Suc.prems(3) t1
      obtain r h' where
        l: "loop_h stringify input (i + 1) s1 h1 = Some (r, h')" and g2: "grows n h1 h'"
        and i2: "\<forall>s'. r = Some s' \<longrightarrow> loop_inv n s' h'"
        by auto
      from Some st r1 l have "loop_h stringify input i s h = Some (r, h')"
        by (subst loop_h.simps) simp
      with grows_trans [OF g1 g2] i2 show ?thesis by blast
    qed
  qed
qed

lemma keeps_set_prop: "n \<le> a \<Longrightarrow> keeps n h (set_prop_h a k v h)"
  by (auto simp: keeps_def set_prop_h_def split: option.splits obj.splits)

lemma keeps_delete_prop: "n \<le> a \<Longrightarrow> keeps n h (delete_prop_h a k h)"
  by (auto simp: keeps_def delete_prop_h_def split: option.splits obj.splits)

lemma keeps_delete_after:
  "n \<le> a \<Longrightarrow> keeps n h h1 \<Longrightarrow> keeps n h (delete_prop_h a k h1)"
  using keeps_delete_prop [of n a h1 k] by (blast intro: keeps_trans)

lemma keeps_cleanup: "n \<le> a \<Longrightarrow> keeps n h (cleanup_h a h)"
  unfolding cleanup_h_def by (simp add: keeps_delete_after)

lemma keeps_alloc: "n \<le> length h \<Longrightarrow> keeps n h (h @ [ob])"
  by (simp add: keeps_def)

lemma convert_tools_h_keeps:
  assumes "n \<le> length h" and "n \<le> result" and "convert_tools_h body result h = (r, h')"
  shows "keeps n h h'"
proof (cases "\<exists>a ts. field_h h body ''tools'' = VRef a \<and> deref h a = Some (Arr ts)")
  case False
  with assms(3) have "h' = h"
    by (auto simp: convert_tools_h_def split: val.splits option.splits obj.splits)
  then show ?thesis by simp
next
  case True
  then obtain a ts where t: "field_h h body ''tools'' = VRef a" "deref h a = Some (Arr ts)"
    by blast
  obtain r1 h1 where m: "map_h convert_tool_h ts h = (r1, h1)"
    by (cases "map_h convert_tool_h ts h")
  from map_h_grows [of n convert_tool_h, OF convert_tool_h_grows assms(1) m]
  have k1: "keeps n h h1" by (simp add: grows_keeps)
  show ?thesis
  proof (cases r1)
    case None
    with t m assms(3) k1 show ?thesis by (simp add: convert_tools_h_def)
  next
    case (Some ts')
    with t m assms(3) have e: "h' = set_prop_h result ''tools'' (VRef (length h1)) (h1 @ [Arr ts'])"
      by (auto simp: convert_tools_h_def alloc_def)
    have n1: "n \<le> length h1" using k1 assms(1) by (simp add: keeps_def)
    have a: "keeps n h1 (h1 @ [Arr ts'])" by (rule keeps_alloc [OF n1])
    have b: "keeps n (h1 @ [Arr ts'])
               (set_prop_h result ''tools'' (VRef (length h1)) (h1 @ [Arr ts']))"
      by (rule keeps_set_prop [OF assms(2)])
    show ?thesis
      unfolding e by (rule keeps_trans [OF k1 keeps_trans [OF a b]])
  qed
qed

lemma finish_h_keeps:
  assumes "loop_inv n s h" and "n \<le> length h" and "finish_h body s h = (r, h')"
  shows "keeps n h h'"
proof -
  from assms(1) have res: "n \<le> h_result s" and om: "owns n h (VRef (h_result s)) ''messages''"
    by (auto simp: loop_inv_def owns_def)
  have "\<exists>h1. (if truthy_v (h_currentAssistantMsg s)
         then push_h (field_h h (VRef (h_result s)) ''messages'') (h_currentAssistantMsg s) h
         else Some h) = Some h1 \<and> grows n h h1"
  proof (cases "truthy_v (h_currentAssistantMsg s)")
    case True
    with push_owned [OF om, of "h_currentAssistantMsg s"] show ?thesis by simp
  next
    case False
    then show ?thesis by simp
  qed
  then obtain h1 where
    1: "(if truthy_v (h_currentAssistantMsg s)
         then push_h (field_h h (VRef (h_result s)) ''messages'') (h_currentAssistantMsg s) h
         else Some h) = Some h1" and g1: "grows n h h1"
    by blast
  from g1 om have om1: "owns n h1 (VRef (h_result s)) ''messages''" by (simp add: grows_def)
  have "\<exists>h2. (if length (pending_items h1 (h_pendingToolResults s)) > 0
         then push_all_h (field_h h1 (VRef (h_result s)) ''messages'')
                (pending_items h1 (h_pendingToolResults s)) h1
         else Some h1) = Some h2 \<and> grows n h1 h2"
  proof (cases "length (pending_items h1 (h_pendingToolResults s)) > 0")
    case True
    with push_all_owned [OF om1, of "pending_items h1 (h_pendingToolResults s)"]
    show ?thesis by simp
  next
    case False
    then show ?thesis by simp
  qed
  then obtain h2 where
    2: "(if length (pending_items h1 (h_pendingToolResults s)) > 0
         then push_all_h (field_h h1 (VRef (h_result s)) ''messages'')
                (pending_items h1 (h_pendingToolResults s)) h1
         else Some h1) = Some h2" and g2: "grows n h1 h2"
    by blast
  have n2: "n \<le> length h2"
    by (rule grows_length [OF g2 grows_length [OF g1 assms(2)]])
  obtain r3 h3 where 3: "convert_tools_h body (h_result s) h2 = (r3, h3)"
    by (cases "convert_tools_h body (h_result s) h2")
  from convert_tools_h_keeps [OF n2 res 3] have k3: "keeps n h2 h3" .
  have k02: "keeps n h h2"
    by (rule keeps_trans [OF grows_keeps [OF g1] grows_keeps [OF g2]])
  show ?thesis
  proof (cases r3)
    case None
    with 1 2 3 assms(3) have "h' = h3" by (simp add: finish_h_def)
    then show ?thesis using keeps_trans [OF k02 k3] by simp
  next
    case (Some u)
    with 1 2 3 assms(3) have "h' = cleanup_h (h_result s) h3" by (simp add: finish_h_def)
    then show ?thesis
      using keeps_trans [OF keeps_trans [OF k02 k3] keeps_cleanup [OF res, of h3]] by simp
  qed
qed

lemma new_result_inv:
  "\<exists>h1. new_result body h = (length h, h1) \<and> keeps (length h) h h1 \<and>
        owns (length h) h1 (VRef (length h)) ''messages''"
proof -
  let ?n = "length h"
  let ?kvs = "own_props h body"
  let ?h2 = "(h @ [Obj ?kvs]) @ [Arr []]"
  let ?h3 = "?h2[?n := Obj (AList.update ''messages'' (VRef (Suc ?n)) ?kvs)]"
  have e: "new_result body h = (?n, ?h3)"
    by (simp add: new_result_def alloc_def set_prop_h_def deref_def nth_append)
  have k3: "keeps ?n h ?h3" by (simp add: keeps_def)
  have o3: "owns ?n ?h3 (VRef ?n) ''messages''"
    unfolding owns_def arr_at_def
    by (intro exI [of _ ?n] exI [of _ "AList.update ''messages'' (VRef (Suc ?n)) ?kvs"]
          exI [of _ "Suc ?n"])
       (simp add: nth_append update_conv')
  from e k3 o3 show ?thesis by blast
qed

lemma push_instructions_grows:
  assumes "owns n h (VRef result) ''messages''" and "n \<le> length h"
  shows "\<exists>r h'. push_instructions body result h = (r, h') \<and> grows n h h'"
proof (cases "truthy_v (field_h h body ''instructions'')")
  case False
  then show ?thesis by (simp add: push_instructions_def)
next
  case True
  let ?sys = "Obj [(''role'', VStr ''system''), (''content'', field_h h body ''instructions'')]"
  have g: "grows n h (h @ [?sys])" by (rule grows_alloc [OF assms(2)])
  from g assms(1) have "owns n (h @ [?sys]) (VRef result) ''messages''" by (simp add: grows_def)
  from push_owned [OF this, of "VRef (length h)"] obtain h'' where
    "push_h (field_h (h @ [?sys]) (VRef result) ''messages'') (VRef (length h)) (h @ [?sys])
       = Some h''" and "grows n (h @ [?sys]) h''" by blast
  with True grows_trans [OF g] show ?thesis
    by (simp add: push_instructions_def alloc_def)
qed

lemma start_h_inv:
  "\<exists>r h1. start_h body h = (r, h1) \<and> keeps (length h) h h1 \<and>
           (\<forall>s0. r = Some s0 \<longrightarrow> loop_inv (length h) s0 h1)"
proof -
  let ?n = "length h"
  from new_result_inv [of body h] obtain h3 where
    e3: "new_result body h = (?n, h3)" and k3: "keeps ?n h h3"
    and o3: "owns ?n h3 (VRef ?n) ''messages''" by blast
  have n3: "?n \<le> length h3" using k3 by (simp add: keeps_def)
  from push_instructions_grows [OF o3 n3, of body] obtain r4 h4 where
    e4: "push_instructions body ?n h3 = (r4, h4)" and g4: "grows ?n h3 h4" by blast
  have k4: "keeps ?n h h4" by (rule keeps_trans [OF k3 grows_keeps [OF g4]])
  from grows_length [OF g4 n3] have n4: "?n \<le> length h4" .
  show ?thesis
  proof (cases r4)
    case None
    with e3 e4 k4 show ?thesis by (simp add: start_h_def)
  next
    case (Some u)
    let ?s0 = "\<lparr>h_result = ?n, h_currentAssistantMsg = VNull,
                h_pendingToolResults = VRef (length h4)\<rparr>"
    have g5: "grows ?n h4 (h4 @ [Arr []])" by (rule grows_alloc [OF n4])
    from o3 g4 g5 have "owns ?n (h4 @ [Arr []]) (VRef ?n) ''messages''"
      by (simp add: grows_def)
    then have "loop_inv ?n ?s0 (h4 @ [Arr []])"
      using n4 by (simp add: loop_inv_def arr_at_def)
    moreover have "keeps ?n h (h4 @ [Arr []])"
      by (rule keeps_trans [OF k4 grows_keeps [OF g5]])
    moreover from e3 e4 Some have "start_h body h = (Some ?s0, h4 @ [Arr []])"
      by (simp add: start_h_def alloc_def)
    ultimately show ?thesis by simp
  qed
qed

text \<open>
  A run of the store model, on the body whose instructions are "be terse" and whose
  input holds one user message with one \<open>input_text\<close> part "hi": the objects 0 to 4
  are the request, the objects 5 to 11 are those the call allocates, and the result,
  read through its references, is \<open>{messages: [{role: "system", content: "be terse"},
  {role: "user", content: [{type: "text", text: "hi"}]}]}\<close>, as in the model on values.
\<close>

lemma store_scenario:
  "openaiResponsesToOpenAIRequest_h stringify model (VRef 0) stream credentials
     [Obj [(''instructions'', VStr ''be terse''), (''input'', VRef 1)],
      Arr [VRef 2],
      Obj [(''type'', VStr ''message''), (''role'', VStr ''user''), (''content'', VRef 3)],
      Arr [VRef 4],
      Obj [(''type'', VStr ''input_text''), (''text'', VStr ''hi'')]]
   = Some (Some (VRef 5),
      [Obj [(''instructions'', VStr ''be terse''), (''input'', VRef 1)],
       Arr [VRef 2],
       Obj [(''type'', VStr ''message''), (''role'', VStr ''user''), (''content'', VRef 3)],
       Arr [VRef 4],
       Obj [(''type'', VStr ''input_text''), (''text'', VStr ''hi'')],
       Obj [(''messages'', VRef 6)],
       Arr [VRef 7, VRef 11],
       Obj [(''role'', VStr ''system''), (''content'', VStr ''be terse'')],
       Arr [],
       Obj [(''type'', VStr ''text''), (''text'', VStr ''hi'')],
       Arr [VRef 9],
       Obj [(''role'', VStr ''user''), (''content'', VRef 10)]])"
  by code_simp


text \<open>
  C6. On every store in which \<open>body.input\<close> is not a dangling reference, and for all
  values of \<open>model\<close>, \<open>stream\<close> and \<open>credentials\<close>, the translator returns (a value or
  a thrown \<open>TypeError\<close>) and every object and array of the store it was called on is,
  after the call, what it was before: the body, its input list, the items, the tools
  entries and everything else reachable from the arguments. All writes go to objects
  the call itself allocated.
\<close>

theorem body_not_mutated:
  assumes "val_ok h (field_h h body ''input'')"
  shows "\<exists>r h'. openaiResponsesToOpenAIRequest_h stringify model body stream credentials h
                   = Some (r, h') \<and>
                 take (length h) h' = h"
proof -
  let ?n = "length h"
  let ?f = "openaiResponsesToOpenAIRequest_h stringify model body stream credentials h"
  have fin: "keeps ?n h h' \<Longrightarrow> take ?n h' = h" for h'
    by (simp add: keeps_def)
  show ?thesis
  proof (cases "nullish_v body \<or> \<not> truthy_v (field_h h body ''input'')")
    case True
    then have "?f = Some (None, h) \<or> ?f = Some (Some body, h)"
      by (auto simp: openaiResponsesToOpenAIRequest_h_def)
    then show ?thesis by auto
  next
    case False
    then have nn: "\<not> nullish_v body" and tr: "truthy_v (field_h h body ''input'')" by simp_all
    from tr have bok: "val_ok (take ?n h) body"
      by (cases body) (auto simp: field_h_def val_ok_def deref_def split: if_splits)
    from assms have iok: "val_ok (take ?n h) (field_h h body ''input'')" by simp
    from start_h_inv [of body h] obtain r1 h1 where
      st: "start_h body h = (r1, h1)" and k1: "keeps ?n h h1"
      and i1: "\<forall>s0. r1 = Some s0 \<longrightarrow> loop_inv ?n s0 h1" by blast
    have n1: "?n \<le> length h1" using k1 by (simp add: keeps_def)
    have t1: "take ?n h1 = take ?n h" using k1 by (simp add: keeps_def)
    have in1: "field_h h1 body ''input'' = field_h h body ''input''"
      by (rule keeps_field_h [OF k1 _ bok]) simp
    show ?thesis
    proof (cases r1)
      case None
      with nn tr st have "?f = Some (None, h1)"
        by (simp add: openaiResponsesToOpenAIRequest_h_def)
      with fin [OF k1] show ?thesis by simp
    next
      case (Some s0)
      with i1 have inv0: "loop_inv ?n s0 h1" by simp
      show ?thesis
      proof (cases "iterable_h h1 (field_h h1 body ''input'')")
        case False
        with nn tr st Some have "?f = Some (None, h1)"
          by (simp add: openaiResponsesToOpenAIRequest_h_def)
        with fin [OF k1] show ?thesis by simp
      next
        case True
        from iok t1 have iok1: "val_ok (take ?n h1) (field_h h body ''input'')" by simp
        from loop_h_total [OF inv0 n1 iok1, of stringify 0] obtain r2 h2 where
          l: "loop_h stringify (field_h h body ''input'') 0 s0 h1 = Some (r2, h2)"
          and g2: "grows ?n h1 h2" and i2: "\<forall>s'. r2 = Some s' \<longrightarrow> loop_inv ?n s' h2"
          by blast
        have k2: "keeps ?n h h2" by (rule keeps_trans [OF k1 grows_keeps [OF g2]])
        show ?thesis
        proof (cases r2)
          case None
          with nn tr st Some True l in1 have "?f = Some (None, h2)"
            by (simp add: openaiResponsesToOpenAIRequest_h_def)
          with fin [OF k2] show ?thesis by simp
        next
          case s: (Some s2)
          obtain r3 h3 where f3: "finish_h body s2 h2 = (r3, h3)"
            by (cases "finish_h body s2 h2")
          from i2 s have inv2: "loop_inv ?n s2 h2" by simp
          from finish_h_keeps [OF inv2 grows_length [OF g2 n1] f3]
          have k3: "keeps ?n h h3" by (rule keeps_trans [OF k2])
          from nn tr st Some True l in1 s f3 have "?f = Some (r3, h3)"
            by (simp add: openaiResponsesToOpenAIRequest_h_def)
          with fin [OF k3] show ?thesis by simp
        qed
      qed
    qed
  qed
qed


theorem body_not_mutated_witness:
  "val_ok [Obj [(''instructions'', VStr ''be terse''), (''input'', VRef 1)],
           Arr [VRef 2],
           Obj [(''type'', VStr ''function_call''), (''call_id'', VStr ''c1''),
                (''name'', VStr ''f''), (''arguments'', VStr ''{}'')]]
     (field_h [Obj [(''instructions'', VStr ''be terse''), (''input'', VRef 1)],
               Arr [VRef 2],
               Obj [(''type'', VStr ''function_call''), (''call_id'', VStr ''c1''),
                    (''name'', VStr ''f''), (''arguments'', VStr ''{}'')]]
        (VRef 0) ''input'')
   \<and> (\<exists>r h'. openaiResponsesToOpenAIRequest_h (\<lambda>h v. VUndef) VNull (VRef 0) VNull VNull
                  [Obj [(''instructions'', VStr ''be terse''), (''input'', VRef 1)],
                   Arr [VRef 2],
                   Obj [(''type'', VStr ''function_call''), (''call_id'', VStr ''c1''),
                        (''name'', VStr ''f''), (''arguments'', VStr ''{}'')]]
                = Some (r, h')
              \<and> take 3 h' =
                  [Obj [(''instructions'', VStr ''be terse''), (''input'', VRef 1)],
                   Arr [VRef 2],
                   Obj [(''type'', VStr ''function_call''), (''call_id'', VStr ''c1''),
                        (''name'', VStr ''f''), (''arguments'', VStr ''{}'')]])"
proof -
  let ?h = "[Obj [(''instructions'', VStr ''be terse''), (''input'', VRef 1)],
             Arr [VRef 2],
             Obj [(''type'', VStr ''function_call''), (''call_id'', VStr ''c1''),
                  (''name'', VStr ''f''), (''arguments'', VStr ''{}'')]]"
  have ok: "val_ok ?h (field_h ?h (VRef 0) ''input'')"
    by (simp add: val_ok_def field_h_def deref_def)
  have l: "length ?h = 3" by simp
  from body_not_mutated [OF ok, of "\<lambda>h v. VUndef" VNull VNull VNull]
  have "\<exists>r h'. openaiResponsesToOpenAIRequest_h (\<lambda>h v. VUndef) VNull (VRef 0) VNull VNull ?h
                  = Some (r, h') \<and> take 3 h' = ?h"
    unfolding l .
  with ok show ?thesis by blast
qed

section \<open>Tool declarations\<close>

text \<open>
  C7, as stated, at a body whose \<open>tools\<close> is an array holding one flat declaration and
  which has no \<open>input\<close>: line 39 returns the body itself, so the flat declaration is
  still flat in the output and is not of the nested shape.
\<close>

theorem falsy_input_flat_tool_counterexample:
  "field (JObj [(''tools'', JArr [JObj [(''type'', JStr ''function''), (''name'', JStr ''f'')]])])
     ''tools''
     = JArr [JObj [(''type'', JStr ''function''), (''name'', JStr ''f'')]]
   \<and> openaiResponsesToOpenAIRequest (\<lambda>v. JUndef) JNull
        (JObj [(''tools'', JArr [JObj [(''type'', JStr ''function''), (''name'', JStr ''f'')]])])
        JNull JNull
      = Some (JObj [(''tools'', JArr [JObj [(''type'', JStr ''function''),
                                            (''name'', JStr ''f'')]])])
   \<and> tools_of (JObj [(''tools'', JArr [JObj [(''type'', JStr ''function''),
                                             (''name'', JStr ''f'')]])])
      = [JObj [(''type'', JStr ''function''), (''name'', JStr ''f'')]]
   \<and> \<not> canonical_tool (JObj [(''type'', JStr ''function''), (''name'', JStr ''f'')])"
  by (simp add: tools_of_def canonical_tool_def)

text \<open>
  C7, amended. For every body whose \<open>input\<close> is truthy and iterable (an array, or a
  non-empty string) and whose \<open>tools\<close> is an array (no read throwing), the translator
  returns and the output tools list is the input list with each declaration that has
  no truthy \<open>function\<close> field replaced by
  \<open>{type: "function", function: {name, description, parameters, strict}}\<close> built from
  its own four fields, and each declaration with a truthy \<open>function\<close> field passed
  through unchanged. So every output entry has a truthy \<open>function\<close> field, and the
  entries that come from flat declarations are of the nested shape.
\<close>

theorem tools_normalized:
  assumes "truthy (field body ''input'')"
    and "iterate (field body ''input'') = Some items"
    and "\<forall>item \<in> set items. item_ok item"
    and "field body ''tools'' = JArr ts"
    and "\<forall>t \<in> set ts. \<not> nullish t"
  shows "\<exists>r. openaiResponsesToOpenAIRequest stringify model body stream credentials = Some r \<and>
           tools_of r =
             map (\<lambda>t. if truthy (field t ''function'') then t
                       else JObj [(''type'', JStr ''function''),
                                  (''function'',
                                   JObj [(''name'', field t ''name''),
                                         (''description'', field t ''description''),
                                         (''parameters'', field t ''parameters''),
                                         (''strict'', field t ''strict'')])]) ts \<and>
           (\<forall>t \<in> set (tools_of r). truthy (field t ''function'')) \<and>
           (\<forall>i < length ts. \<not> truthy (field (ts ! i) ''function'') \<longrightarrow>
                             canonical_tool (tools_of r ! i))"
proof -
  have ok: "tools_ok (field body ''tools'')"
    using assms(4,5) by (simp add: tools_ok_def)
  from translator_returns_iterable [OF assms(1,2,3) ok, of stringify model stream credentials]
  obtain kvs s result where
    c: "convert_tools body (AList.update ''messages'' (JArr (flush_remaining s)) kvs) = Some result"
    and r: "openaiResponsesToOpenAIRequest stringify model body stream credentials =
       Some (JObj (cleanup result))"
    by blast
  let ?n = "\<lambda>t. if truthy (field t ''function'') then t else wrap_tool t"
  from c convert_tools_array [OF assms(4,5)]
  have "result = AList.update ''tools'' (JArr (map ?n ts))
                   (AList.update ''messages'' (JArr (flush_remaining s)) kvs)"
    by simp
  then have t: "tools_of (JObj (cleanup result)) = map ?n ts"
    by (simp add: tools_of_def field_cleanup del: field.simps)
  have 1: "\<forall>t \<in> set (map ?n ts). truthy (field t ''function'')"
    by (auto simp: wrap_tool_def)
  have 2: "\<forall>i < length ts. \<not> truthy (field (ts ! i) ''function'') \<longrightarrow>
                             canonical_tool (map ?n ts ! i)"
    by (auto simp: wrap_tool_def canonical_tool_def)
  show ?thesis
  proof (intro exI conjI)
    show "openaiResponsesToOpenAIRequest stringify model body stream credentials =
            Some (JObj (cleanup result))"
      by (rule r)
    show "tools_of (JObj (cleanup result)) =
             map (\<lambda>t. if truthy (field t ''function'') then t
                       else JObj [(''type'', JStr ''function''),
                                  (''function'',
                                   JObj [(''name'', field t ''name''),
                                         (''description'', field t ''description''),
                                         (''parameters'', field t ''parameters''),
                                         (''strict'', field t ''strict'')])]) ts"
      unfolding t wrap_tool_def by (rule refl)
    show "\<forall>t \<in> set (tools_of (JObj (cleanup result))). truthy (field t ''function'')"
      unfolding t by (rule 1)
    show "\<forall>i < length ts. \<not> truthy (field (ts ! i) ''function'') \<longrightarrow>
                             canonical_tool (tools_of (JObj (cleanup result)) ! i)"
      unfolding t by (rule 2)
  qed
qed

theorem tools_normalized_witness:
  "field (JObj [(''input'', JArr []),
                (''tools'', JArr [JObj [(''type'', JStr ''function''), (''name'', JStr ''f'')],
                                  JObj [(''type'', JStr ''function''),
                                        (''function'', JObj [(''name'', JStr ''g'')])]])])
     ''input'' = JArr []
   \<and> \<not> nullish (JObj [(''type'', JStr ''function''), (''name'', JStr ''f'')])
   \<and> \<not> nullish (JObj [(''type'', JStr ''function''),
                        (''function'', JObj [(''name'', JStr ''g'')])])
   \<and> (\<exists>r. openaiResponsesToOpenAIRequest (\<lambda>v. JUndef) JNull
              (JObj [(''input'', JArr []),
                     (''tools'', JArr [JObj [(''type'', JStr ''function''), (''name'', JStr ''f'')],
                                       JObj [(''type'', JStr ''function''),
                                             (''function'', JObj [(''name'', JStr ''g'')])]])])
              JNull JNull = Some r
          \<and> tools_of r =
              [JObj [(''type'', JStr ''function''),
                     (''function'', JObj [(''name'', JStr ''f''), (''description'', JUndef),
                                          (''parameters'', JUndef), (''strict'', JUndef)])],
               JObj [(''type'', JStr ''function''),
                     (''function'', JObj [(''name'', JStr ''g'')])]])"
proof -
  let ?flat = "JObj [(''type'', JStr ''function''), (''name'', JStr ''f'')]"
  let ?nested = "JObj [(''type'', JStr ''function''), (''function'', JObj [(''name'', JStr ''g'')])]"
  let ?body = "JObj [(''input'', JArr []), (''tools'', JArr [?flat, ?nested])]"
  have 1: "field ?body ''input'' = JArr []" by simp
  have 0: "truthy (field ?body ''input'')" "iterate (field ?body ''input'') = Some []"
    by simp_all
  have 2: "\<forall>item \<in> set []. item_ok item" by simp
  have 3: "field ?body ''tools'' = JArr [?flat, ?nested]" by simp
  have 4: "\<forall>t \<in> set [?flat, ?nested]. \<not> nullish t" by (simp add: nullish_def)
  from tools_normalized [OF 0 2 3 4, of "\<lambda>v. JUndef" JNull JNull JNull]
  obtain r where
    "openaiResponsesToOpenAIRequest (\<lambda>v. JUndef) JNull ?body JNull JNull = Some r"
    "tools_of r =
       map (\<lambda>t. if truthy (field t ''function'') then t
                 else JObj [(''type'', JStr ''function''),
                            (''function'',
                             JObj [(''name'', field t ''name''),
                                   (''description'', field t ''description''),
                                   (''parameters'', field t ''parameters''),
                                   (''strict'', field t ''strict'')])]) [?flat, ?nested]"
    by blast
  moreover have "\<not> nullish ?flat" "\<not> nullish ?nested" by (simp_all add: nullish_def)
  ultimately show ?thesis
    using 1 by (auto simp del: openaiResponsesToOpenAIRequest.simps)
qed

section \<open>Onboarding polls with a fixed count and a fixed delay\<close>

lemma onboard_loop_trace:
  "\<exists>n \<le> MAX_ATTEMPTS + 1 - attempt.
       snd (onboard_loop trim env attempt) =
         concat (map (attempt_events trim env) [attempt..<attempt + n])"
proof (induction trim env attempt rule: onboard_loop.induct)
  case (1 trim env attempt)
  show ?case
  proof (cases "attempt \<le> MAX_ATTEMPTS")
    case False
    then have "snd (onboard_loop trim env attempt) = []"
      by (simp add: onboard_loop.simps)
    then show ?thesis
      using False by (intro exI [of _ 0]) simp
  next
    case le: True
    show ?thesis
    proof (cases "try_attempt trim (env attempt)")
      case (TryReturn v)
      with le have "snd (onboard_loop trim env attempt) = [Fetch attempt]"
        by (simp add: onboard_loop.simps)
      with le TryReturn show ?thesis
        by (intro exI [of _ 1]) (simp add: attempt_events_def)
    next
      case TryNotDone
      from "1.IH"(1) [OF le TryNotDone] obtain n where
        n: "n \<le> MAX_ATTEMPTS + 1 - (attempt + 1)"
        and tr: "snd (onboard_loop trim env (attempt + 1)) =
                   concat (map (attempt_events trim env) [attempt + 1..<attempt + 1 + n])"
        by blast
      from le TryNotDone have
        "snd (onboard_loop trim env attempt) =
           [Fetch attempt, Wait 2000] @ snd (onboard_loop trim env (attempt + 1))"
        by (subst onboard_loop.simps) simp
      with tr TryNotDone have
        "snd (onboard_loop trim env attempt) =
           concat (map (attempt_events trim env) [attempt..<attempt + (n + 1)])"
        by (simp add: upt_rec [of attempt] attempt_events_def)
      with n le show ?thesis
        by (intro exI [of _ "n + 1"]) simp
    next
      case (TryThrow name)
      show ?thesis
      proof (cases "attempt \<noteq> MAX_ATTEMPTS \<and> name = ''AbortError''")
        case False
        with le TryThrow have "snd (onboard_loop trim env attempt) = [Fetch attempt]"
          by (subst onboard_loop.simps) auto
        with le TryThrow show ?thesis
          by (intro exI [of _ 1]) (simp add: attempt_events_def)
      next
        case True
        then have ne: "attempt \<noteq> MAX_ATTEMPTS" and ab: "name = ''AbortError''" by simp_all
        from "1.IH"(2) [OF le TryThrow ne ab] obtain n where
          n: "n \<le> MAX_ATTEMPTS + 1 - (attempt + 1)"
          and tr: "snd (onboard_loop trim env (attempt + 1)) =
                     concat (map (attempt_events trim env) [attempt + 1..<attempt + 1 + n])"
          by blast
        from le TryThrow ne ab have
          "snd (onboard_loop trim env attempt) =
             [Fetch attempt] @ snd (onboard_loop trim env (attempt + 1))"
          by (subst onboard_loop.simps) simp
        with tr TryThrow have
          "snd (onboard_loop trim env attempt) =
             concat (map (attempt_events trim env) [attempt..<attempt + (n + 1)])"
          by (simp add: upt_rec [of attempt] attempt_events_def)
        with n le show ?thesis
          by (intro exI [of _ "n + 1"]) simp
      qed
    qed
  qed
qed

lemma onboard_loop_null:
  assumes "attempt \<le> MAX_ATTEMPTS"
    and "\<forall>i. attempt \<le> i \<and> i < MAX_ATTEMPTS \<longrightarrow>
              try_attempt trim (env i) = TryNotDone \<or>
              try_attempt trim (env i) = TryThrow ''AbortError''"
    and "\<forall>v. try_attempt trim (env MAX_ATTEMPTS) \<noteq> TryReturn v"
  shows "fst (onboard_loop trim env attempt) = Returned JNull"
  using assms
proof (induction "MAX_ATTEMPTS - attempt" arbitrary: attempt)
  case 0
  then have a: "attempt = MAX_ATTEMPTS" by simp
  have x: "fst (onboard_loop trim env (Suc MAX_ATTEMPTS)) = Returned JNull"
    by (subst onboard_loop.simps) simp
  from "0.prems"(3) show ?case
    unfolding a
    by (subst onboard_loop.simps) (auto split: try_result.splits simp: x)
next
  case (Suc k)
  then have lt: "attempt < MAX_ATTEMPTS" by simp
  have ih: "fst (onboard_loop trim env (attempt + 1)) = Returned JNull"
    using Suc.hyps(2) lt Suc.prems(2,3) by (intro Suc.hyps(1)) auto
  from Suc.prems(2) lt have
    "try_attempt trim (env attempt) = TryNotDone \<or>
     try_attempt trim (env attempt) = TryThrow ''AbortError''"
    by simp
  with lt ih show ?case
    by (subst onboard_loop.simps) auto
qed


text \<open>
  C8. \<open>onboardUser\<close> is a total function (its loop terminates, every request settling:
  the attempt number grows to the bound). Every run sends the requests of attempts 1 to \<open>n\<close> for some \<open>n \<le> 5\<close>,
  at most five, and waits right after each response that is not done, and only then,
  always 2000 milliseconds whatever the attempt number. When attempts 1 to 4 each end
  not done or aborted, so that attempt 5 is made, and attempt 5 does not return a
  project id (it throws any error, or is not done), the run returns \<open>null\<close> and does
  not throw.
\<close>

theorem onboardUser_fixed_retries:
  "(\<exists>n \<le> 5. snd (onboardUser trim env) =
              concat (map (attempt_events trim env) [1..<Suc n]))
   \<and> length (filter is_Fetch (snd (onboardUser trim env))) \<le> 5
   \<and> (\<forall>e \<in> set (snd (onboardUser trim env)). is_Wait e \<longrightarrow> delay e = 2000)
   \<and> ((\<forall>i. 1 \<le> i \<and> i < 5 \<longrightarrow>
             try_attempt trim (env i) = TryNotDone \<or>
             try_attempt trim (env i) = TryThrow ''AbortError'') \<and>
        (\<forall>v. try_attempt trim (env 5) \<noteq> TryReturn v) \<longrightarrow>
        fst (onboardUser trim env) = Returned JNull)"
proof -
  from onboard_loop_trace [of 1 trim env] obtain n where
    n: "n \<le> 5"
    and tr: "snd (onboardUser trim env) =
               concat (map (attempt_events trim env) [1..<Suc n])"
    by (auto simp: onboardUser_def MAX_ATTEMPTS_def)
  have f: "filter is_Fetch (concat (map (attempt_events trim env) xs)) = map Fetch xs" for xs
    by (induction xs) (simp_all add: attempt_events_def)
  have w: "\<forall>e \<in> set (concat (map (attempt_events trim env) xs)).
             is_Wait e \<longrightarrow> delay e = 2000" for xs
    by (auto simp: attempt_events_def split: if_splits)
  have 1: "\<exists>n \<le> 5. snd (onboardUser trim env) =
              concat (map (attempt_events trim env) [1..<Suc n])"
    using n tr by blast
  have 2: "length (filter is_Fetch (snd (onboardUser trim env))) \<le> 5"
    unfolding tr f using n by simp
  have 3: "\<forall>e \<in> set (snd (onboardUser trim env)). is_Wait e \<longrightarrow> delay e = 2000"
    unfolding tr by (rule w)
  have 4: "(\<forall>i. 1 \<le> i \<and> i < 5 \<longrightarrow>
             try_attempt trim (env i) = TryNotDone \<or>
             try_attempt trim (env i) = TryThrow ''AbortError'') \<and>
        (\<forall>v. try_attempt trim (env 5) \<noteq> TryReturn v) \<longrightarrow>
        fst (onboardUser trim env) = Returned JNull"
    using onboard_loop_null [of 1 trim env]
    by (simp add: onboardUser_def MAX_ATTEMPTS_def)
  from 1 2 3 4 show ?thesis by blast
qed

theorem onboardUser_fixed_retries_witness:
  "try_attempt (\<lambda>s. s) (Response True (Json (JObj [(''done'', JBool False)]))) = TryNotDone
   \<and> fst (onboardUser (\<lambda>s. s) (\<lambda>i. Response True (Json (JObj [(''done'', JBool False)]))))
       = Returned JNull
   \<and> snd (onboardUser (\<lambda>s. s) (\<lambda>i. Response True (Json (JObj [(''done'', JBool False)]))))
       = [Fetch 1, Wait 2000, Fetch 2, Wait 2000, Fetch 3, Wait 2000, Fetch 4, Wait 2000,
          Fetch 5, Wait 2000]"
proof -
  let ?env = "\<lambda>i::nat. Response True (Json (JObj [(''done'', JBool False)]))"
  have t: "try_attempt (\<lambda>s. s) (?env i) = TryNotDone" for i
    by (simp add: try_attempt_def nullish_def)
  from onboardUser_fixed_retries [of "\<lambda>s. s" ?env] t
  have r: "fst (onboardUser (\<lambda>s. s) ?env) = Returned JNull"
    by simp
  have s: "snd (onboardUser (\<lambda>s. s) ?env) =
        [Fetch 1, Wait 2000, Fetch 2, Wait 2000, Fetch 3, Wait 2000, Fetch 4, Wait 2000,
          Fetch 5, Wait 2000]"
    by (simp add: onboardUser_def onboard_loop.simps MAX_ATTEMPTS_def t)
  from t r s show ?thesis by blast
qed

section \<open>Concurrent calls share the fetch in flight\<close>

lemma inv_init: "registry_inv init_registry"
  by (simp add: registry_inv_def init_registry_def)

lemma inv_pending:
  "registry_inv s \<Longrightarrow> pendingFetches s c = Some p \<Longrightarrow>
     (\<exists>tok. awaiting s p = Some (c, tok)) \<and> c \<noteq> []"
  unfolding registry_inv_def by blast

lemma inv_awaiting:
  "registry_inv s \<Longrightarrow> awaiting s p = Some (c, tok) \<Longrightarrow>
     pendingFetches s c = Some p \<and> p < length (promises s) \<and> promises s ! p = None"
  unfolding registry_inv_def by blast

lemma invI:
  assumes "\<And>c p. pendingFetches s c = Some p \<Longrightarrow>
             (\<exists>tok. awaiting s p = Some (c, tok)) \<and> c \<noteq> []"
    and "\<And>p c tok. awaiting s p = Some (c, tok) \<Longrightarrow>
             pendingFetches s c = Some p \<and> p < length (promises s) \<and> promises s ! p = None"
  shows "registry_inv s"
  unfolding registry_inv_def using assms by blast

lemma inv_cong:
  assumes "pendingFetches s' = pendingFetches s" and "awaiting s' = awaiting s"
    and "promises s' = promises s"
  shows "registry_inv s' = registry_inv s"
  unfolding registry_inv_def assms by (rule refl)

lemma inv_clock: "registry_inv s \<Longrightarrow> registry_inv (s\<lparr>clock := t\<rparr>)"
  using inv_cong [of "s\<lparr>clock := t\<rparr>" s] by simp

lemma inv_invalidate: "registry_inv s \<Longrightarrow> registry_inv (invalidateProjectId c' s)"
  using inv_cong [of "invalidateProjectId c' s" s] by (simp add: invalidateProjectId_def)

text \<open>A call that issues no fetch leaves the state alone; one that does allocates.\<close>

lemma call_unchanged:
  "c = [] \<or> tok = [] \<or> fresh_entry s c \<noteq> None \<or> pendingFetches s c \<noteq> None \<Longrightarrow>
     snd (getProjectIdForConnection c tok s) = s"
  by (auto simp: getProjectIdForConnection_def split: option.splits)

lemma call_allocates:
  "c \<noteq> [] \<Longrightarrow> tok \<noteq> [] \<Longrightarrow> fresh_entry s c = None \<Longrightarrow> pendingFetches s c = None \<Longrightarrow>
     snd (getProjectIdForConnection c tok s) =
       s\<lparr>promises := promises s @ [None],
         awaiting := (awaiting s)(length (promises s) \<mapsto> (c, tok)),
         issued := Suc (issued s),
         pendingFetches := (pendingFetches s)(c \<mapsto> length (promises s))\<rparr>"
  by (simp add: getProjectIdForConnection_def Let_def)

lemma call_cases:
  obtains (unchanged) "snd (getProjectIdForConnection c tok s) = s"
  | (allocates) "c \<noteq> []" "tok \<noteq> []" "fresh_entry s c = None" "pendingFetches s c = None"
      "snd (getProjectIdForConnection c tok s) =
         s\<lparr>promises := promises s @ [None],
           awaiting := (awaiting s)(length (promises s) \<mapsto> (c, tok)),
           issued := Suc (issued s),
           pendingFetches := (pendingFetches s)(c \<mapsto> length (promises s))\<rparr>"
proof (cases "c = [] \<or> tok = [] \<or> fresh_entry s c \<noteq> None \<or> pendingFetches s c \<noteq> None")
  case True
  from call_unchanged [OF this] show ?thesis by (rule unchanged)
next
  case False
  then have c: "c \<noteq> []" "tok \<noteq> []" "fresh_entry s c = None" "pendingFetches s c = None"
    by auto
  from c call_allocates [OF c] show ?thesis by (rule allocates)
qed

lemma inv_call:
  assumes "registry_inv s"
  shows "registry_inv (snd (getProjectIdForConnection c tok s))"
proof (cases rule: call_cases [of c tok s])
  case unchanged
  with assms show ?thesis by simp
next
  case allocates
  let ?p = "length (promises s)"
  let ?s' = "s\<lparr>promises := promises s @ [None],
                awaiting := (awaiting s)(?p \<mapsto> (c, tok)),
                issued := Suc (issued s),
                pendingFetches := (pendingFetches s)(c \<mapsto> ?p)\<rparr>"
  have np: "awaiting s ?p = None"
  proof (cases "awaiting s ?p")
    case (Some ct)
    then obtain c0 t0 where "awaiting s ?p = Some (c0, t0)" by (cases ct) simp
    from inv_awaiting [OF assms this] show ?thesis by simp
  qed simp
  have "registry_inv ?s'"
  proof (rule invI)
    fix c1 p1 assume a: "pendingFetches ?s' c1 = Some p1"
    show "(\<exists>tok. awaiting ?s' p1 = Some (c1, tok)) \<and> c1 \<noteq> []"
    proof (cases "c1 = c")
      case True
      have "awaiting ?s' p1 = Some (c1, tok)" using a True by simp
      then show ?thesis using allocates(1) True by blast
    next
      case False
      with a have b: "pendingFetches s c1 = Some p1" by simp
      from inv_pending [OF assms b] obtain t1 where
        t1: "awaiting s p1 = Some (c1, t1)" and ne: "c1 \<noteq> []"
        by blast
      from t1 np have "p1 \<noteq> ?p" by auto
      with t1 have "awaiting ?s' p1 = Some (c1, t1)" by simp
      then show ?thesis using ne by blast
    qed
  next
    fix p1 c1 t1 assume a: "awaiting ?s' p1 = Some (c1, t1)"
    show "pendingFetches ?s' c1 = Some p1 \<and> p1 < length (promises ?s') \<and> promises ?s' ! p1 = None"
    proof (cases "p1 = ?p")
      case True
      with a show ?thesis by simp
    next
      case False
      with a have b: "awaiting s p1 = Some (c1, t1)" by simp
      from inv_awaiting [OF assms b] have pc: "pendingFetches s c1 = Some p1"
        and lt: "p1 < length (promises s)" and pn: "promises s ! p1 = None" by simp_all
      from pc allocates(4) have "c1 \<noteq> c" by auto
      with pc lt pn show ?thesis by (simp add: nth_append)
    qed
  qed
  with allocates(5) show ?thesis by simp
qed

lemma settle_idle: "awaiting s p = None \<Longrightarrow> settle p out s = s"
  by (simp add: settle_def)

lemma settle_fields:
  assumes "awaiting s p = Some (c, tok)"
  shows "pendingFetches (settle p out s) = (pendingFetches s)(c := None)"
    and "awaiting (settle p out s) = (awaiting s)(p := None)"
    and "length (promises (settle p out s)) = length (promises s)"
    and "clock (settle p out s) = clock s"
    and "issued (settle p out s) = issued s"
    and "c1 \<noteq> c \<Longrightarrow> projectIdCache (settle p out s) c1 = projectIdCache s c1"
    and "p < length (promises s) \<Longrightarrow>
           promises (settle p out s) ! p =
             Some (case out of Fetched v \<Rightarrow> if truthy v then v else JNull | FetchThrew \<Rightarrow> JNull)"
    and "p1 \<noteq> p \<Longrightarrow> promises (settle p out s) ! p1 = promises s ! p1"
  using assms by (auto simp: settle_def Let_def split: fetch_outcome.splits)

lemma inv_settle:
  assumes "registry_inv s"
  shows "registry_inv (settle p out s)"
proof (cases "awaiting s p")
  case None
  with assms show ?thesis by (simp add: settle_idle)
next
  case (Some ct)
  then obtain c tok where aw: "awaiting s p = Some (c, tok)" by (cases ct) simp
  note sf = settle_fields [OF aw, where out = out]
  from inv_awaiting [OF assms aw] have pc: "pendingFetches s c = Some p" by simp
  show ?thesis
  proof (rule invI)
    fix c1 p1 assume a: "pendingFetches (settle p out s) c1 = Some p1"
    then have ne: "c1 \<noteq> c" and b: "pendingFetches s c1 = Some p1"
      unfolding sf(1) by (auto split: if_splits)
    from inv_pending [OF assms b] obtain t1 where
      t1: "awaiting s p1 = Some (c1, t1)" and n1: "c1 \<noteq> []"
      by blast
    from t1 aw ne have "p1 \<noteq> p" by auto
    with t1 have 1: "awaiting (settle p out s) p1 = Some (c1, t1)"
      unfolding sf(2) by simp
    from 1 n1
    show "(\<exists>tok. awaiting (settle p out s) p1 = Some (c1, tok)) \<and> c1 \<noteq> []"
      by blast
  next
    fix p1 c1 t1 assume a: "awaiting (settle p out s) p1 = Some (c1, t1)"
    then have ne: "p1 \<noteq> p" and b: "awaiting s p1 = Some (c1, t1)"
      unfolding sf(2) by (auto split: if_splits)
    from inv_awaiting [OF assms b] have pc1: "pendingFetches s c1 = Some p1"
      and lt: "p1 < length (promises s)" and pn: "promises s ! p1 = None" by simp_all
    from pc pc1 ne have "c1 \<noteq> c" by auto
    with pc1 lt pn sf(8) [OF ne]
    show "pendingFetches (settle p out s) c1 = Some p1 \<and>
          p1 < length (promises (settle p out s)) \<and> promises (settle p out s) ! p1 = None"
      unfolding sf(1) sf(3) by simp
  qed
qed

lemma inv_act: "registry_inv s \<Longrightarrow> registry_inv (act a s)"
  by (cases a) (simp_all add: inv_call inv_settle inv_invalidate inv_clock)

lemma inv_run: "registry_inv s \<Longrightarrow> registry_inv (run as s)"
  by (induction as arbitrary: s) (simp_all add: inv_act)

text \<open>The registry entry of a fetch stays until that fetch settles.\<close>

lemma call_keeps_pending:
  assumes "pendingFetches s c = Some p"
  shows "pendingFetches (snd (getProjectIdForConnection c' tok' s)) c = Some p"
proof (cases rule: call_cases [of c' tok' s])
  case unchanged
  with assms show ?thesis by simp
next
  case allocates
  from allocates(4) assms have "c' \<noteq> c" by auto
  with assms allocates(5) show ?thesis by simp
qed

lemma settle_keeps_pending:
  assumes "registry_inv s" and "pendingFetches s c = Some p" and "p' \<noteq> p"
  shows "pendingFetches (settle p' out s) c = Some p"
    and "projectIdCache (settle p' out s) c = projectIdCache s c"
    and "clock (settle p' out s) = clock s"
proof -
  have "pendingFetches (settle p' out s) c = Some p \<and>
        projectIdCache (settle p' out s) c = projectIdCache s c \<and>
        clock (settle p' out s) = clock s"
  proof (cases "awaiting s p'")
    case None
    with assms(2) show ?thesis by (simp add: settle_idle)
  next
    case (Some ct)
    then obtain c' tok' where aw: "awaiting s p' = Some (c', tok')" by (cases ct) simp
    from inv_awaiting [OF assms(1) aw] have "pendingFetches s c' = Some p'" by simp
    with assms(2,3) have ne: "c \<noteq> c'" by auto
    with assms(2) settle_fields(6) [OF aw ne, where out = out] show ?thesis
      unfolding settle_fields(1) [OF aw] settle_fields(4) [OF aw] by simp
  qed
  then show "pendingFetches (settle p' out s) c = Some p"
    and "projectIdCache (settle p' out s) c = projectIdCache s c"
    and "clock (settle p' out s) = clock s"
    by simp_all
qed

text \<open>
  A cache entry that is stale, or missing, stays so as long as nothing writes it and
  the time does not run backwards.
\<close>

lemma fresh_entry_cong:
  "projectIdCache s' c = projectIdCache s c \<Longrightarrow> clock s' = clock s \<Longrightarrow>
     fresh_entry s' c = fresh_entry s c"
  by (auto simp: fresh_entry_def split: option.splits)

lemma fresh_entry_call:
  "fresh_entry (snd (getProjectIdForConnection c' tok' s)) c = fresh_entry s c"
proof (cases rule: call_cases [of c' tok' s])
  case unchanged
  then show ?thesis by simp
next
  case allocates
  show ?thesis unfolding allocates(5) by (rule fresh_entry_cong) simp_all
qed

lemma fresh_entry_invalidate:
  "fresh_entry s c = None \<Longrightarrow> fresh_entry (invalidateProjectId c' s) c = None"
  by (auto simp: fresh_entry_def invalidateProjectId_def split: option.splits if_splits)

lemma fresh_entry_clock:
  "fresh_entry s c = None \<Longrightarrow> clock s \<le> t \<Longrightarrow> fresh_entry (s\<lparr>clock := t\<rparr>) c = None"
  by (auto simp: fresh_entry_def split: option.splits if_splits)

lemma run_keeps_pending:
  assumes "registry_inv s" and "pendingFetches s c = Some p" and "fresh_entry s c = None"
    and "\<forall>out. SettleAct p out \<notin> set as" and "clock_forward as s"
  shows "pendingFetches (run as s) c = Some p \<and> fresh_entry (run as s) c = None"
  using assms
proof (induction as arbitrary: s)
  case Nil
  then show ?case by simp
next
  case (Cons a as)
  from Cons.prems(4) have na: "\<forall>out. a \<noteq> SettleAct p out"
    and nas: "\<forall>out. SettleAct p out \<notin> set as"
    by auto
  have i: "registry_inv (act a s)" by (rule inv_act [OF Cons.prems(1)])
  have "pendingFetches (act a s) c = Some p \<and> fresh_entry (act a s) c = None \<and>
        clock_forward as (act a s)"
  proof (cases a)
    case (CallAct c' tok')
    with Cons.prems(2,3,5) show ?thesis
      by (simp add: call_keeps_pending fresh_entry_call)
  next
    case (SettleAct p' out)
    with na have ne: "p' \<noteq> p" by auto
    note sk = settle_keeps_pending [OF Cons.prems(1,2) ne, where out = out]
    from fresh_entry_cong [OF sk(2,3)] Cons.prems(3)
    have "fresh_entry (settle p' out s) c = None" by simp
    with sk(1) SettleAct Cons.prems(5) show ?thesis by simp
  next
    case (InvalidateAct c')
    with Cons.prems(2,3,5) show ?thesis
      by (simp add: fresh_entry_invalidate) (simp add: invalidateProjectId_def)
  next
    case (ClockAct t)
    with Cons.prems(2,3,5) show ?thesis by (simp add: fresh_entry_clock)
  qed
  then have "pendingFetches (act a s) c = Some p" "fresh_entry (act a s) c = None"
    "clock_forward as (act a s)" by simp_all
  from Cons.IH [OF i this(1,2) nas this(3)] show ?case by simp
qed

text \<open>A promise that is resolved keeps its value.\<close>

lemma act_keeps_resolved:
  assumes "registry_inv s" and "p < length (promises s)" and "promises s ! p = Some v"
  shows "p < length (promises (act a s)) \<and> promises (act a s) ! p = Some v"
proof (cases a)
  case (CallAct c' tok')
  show ?thesis
  proof (cases rule: call_cases [of c' tok' s])
    case unchanged
    with CallAct assms(2,3) show ?thesis by simp
  next
    case allocates
    with CallAct assms(2,3) show ?thesis by (simp add: nth_append)
  qed
next
  case (SettleAct p' out)
  show ?thesis
  proof (cases "awaiting s p'")
    case None
    with SettleAct assms(2,3) show ?thesis by (simp add: settle_idle)
  next
    case (Some ct)
    then obtain c' tok' where aw: "awaiting s p' = Some (c', tok')" by (cases ct) simp
    from inv_awaiting [OF assms(1) aw] have "promises s ! p' = None" by simp
    with assms(3) have ne: "p \<noteq> p'" by auto
    from settle_fields(3) [OF aw, where out = out] settle_fields(8) [OF aw ne, where out = out]
      SettleAct assms(2,3)
    show ?thesis by simp
  qed
next
  case (InvalidateAct c')
  with assms(2,3) show ?thesis by (simp add: invalidateProjectId_def)
next
  case (ClockAct t)
  with assms(2,3) show ?thesis by simp
qed

lemma run_keeps_resolved:
  assumes "registry_inv s" and "p < length (promises s)" and "promises s ! p = Some v"
  shows "p < length (promises (run as s)) \<and> promises (run as s) ! p = Some v"
  using assms
proof (induction as arbitrary: s)
  case Nil
  then show ?case by simp
next
  case (Cons a as)
  from act_keeps_resolved [OF Cons.prems, of a]
  have "p < length (promises (act a s))" "promises (act a s) ! p = Some v" by simp_all
  from Cons.IH [OF inv_act [OF Cons.prems(1)] this] show ?case by simp
qed

lemma call_issues:
  assumes "getProjectIdForConnection c tok s = (r, s')" and "issued s' = Suc (issued s)"
  shows "r = Follows (length (promises s)) \<and> pendingFetches s' c = Some (length (promises s))
         \<and> fresh_entry s' c = None"
  using assms
  by (auto simp: getProjectIdForConnection_def Let_def fresh_entry_def
           split: if_splits option.splits)

lemma call_follows:
  assumes "registry_inv s" and "pendingFetches s c = Some p" and "fresh_entry s c = None"
    and "tok \<noteq> []"
  shows "getProjectIdForConnection c tok s = (Follows p, s)"
proof -
  from inv_pending [OF assms(1,2)] have "c \<noteq> []" by simp
  with assms(2,3,4) show ?thesis by (simp add: getProjectIdForConnection_def)
qed

text \<open>
  C9, as stated, at two further calls for the same connection id while the first
  call's fetch is in flight. In the first scenario the further call has an empty
  access token: the guard of line 31 returns \<open>null\<close> at once, whereas the first call's
  result is the project id the fetch yields later. In the second scenario the cache
  holds an entry of time 0 that is stale at time 3600000, so that a call issues a
  fetch; the system's clock is then set back to 1000; the further call, with the same
  token, passes the test of line 35 and returns the stale project id at once, whereas
  the first call's result is the project id the fetch yields later.
\<close>

theorem further_call_not_attached_counterexample:
  "fst (getProjectIdForConnection ''c1'' ''tok'' init_registry) = Follows 0
   \<and> issued (run [CallAct ''c1'' ''tok''] init_registry) = Suc (issued init_registry)
   \<and> pendingFetches (run [CallAct ''c1'' ''tok''] init_registry) ''c1'' = Some 0
   \<and> fst (getProjectIdForConnection ''c1'' '''' (run [CallAct ''c1'' ''tok''] init_registry))
       = Immediate JNull
   \<and> eventual (run [CallAct ''c1'' ''tok'', SettleAct 0 (Fetched (JStr ''proj''))] init_registry)
        (Immediate JNull) = Some JNull
   \<and> eventual (run [CallAct ''c1'' ''tok'', SettleAct 0 (Fetched (JStr ''proj''))] init_registry)
        (Follows 0) = Some (JStr ''proj'')
   \<and> fst (getProjectIdForConnection ''c1'' ''tok''
        (run [CallAct ''c1'' ''tok'', SettleAct 0 (Fetched (JStr ''old'')), ClockAct 3600000]
           init_registry))
      = Follows 1
   \<and> issued (run [CallAct ''c1'' ''tok'', SettleAct 0 (Fetched (JStr ''old'')),
                  ClockAct 3600000, CallAct ''c1'' ''tok''] init_registry)
      = Suc (issued (run [CallAct ''c1'' ''tok'', SettleAct 0 (Fetched (JStr ''old'')),
                          ClockAct 3600000] init_registry))
   \<and> pendingFetches
        (run [CallAct ''c1'' ''tok'', SettleAct 0 (Fetched (JStr ''old'')), ClockAct 3600000,
              CallAct ''c1'' ''tok'', ClockAct 1000] init_registry) ''c1'' = Some 1
   \<and> fst (getProjectIdForConnection ''c1'' ''tok''
        (run [CallAct ''c1'' ''tok'', SettleAct 0 (Fetched (JStr ''old'')), ClockAct 3600000,
              CallAct ''c1'' ''tok'', ClockAct 1000] init_registry))
      = Immediate (JStr ''old'')
   \<and> eventual
        (run [CallAct ''c1'' ''tok'', SettleAct 0 (Fetched (JStr ''old'')), ClockAct 3600000,
              CallAct ''c1'' ''tok'', ClockAct 1000, SettleAct 1 (Fetched (JStr ''new''))]
           init_registry)
        (Follows 1) = Some (JStr ''new'')"
proof -
  let ?t1 = "\<lparr>projectIdCache = Map.empty, pendingFetches = [''c1'' \<mapsto> 0], promises = [None],
             awaiting = [0 \<mapsto> (''c1'', ''tok'')], issued = 1, clock = 0\<rparr>"
  let ?t2 = "\<lparr>projectIdCache = [''c1'' \<mapsto> (JStr ''old'', 0)], pendingFetches = Map.empty,
             promises = [Some (JStr ''old'')], awaiting = Map.empty, issued = 1, clock = 0\<rparr>"
  let ?t3 = "\<lparr>projectIdCache = [''c1'' \<mapsto> (JStr ''old'', 0)], pendingFetches = Map.empty,
             promises = [Some (JStr ''old'')], awaiting = Map.empty, issued = 1,
             clock = 3600000\<rparr>"
  let ?t4 = "\<lparr>projectIdCache = [''c1'' \<mapsto> (JStr ''old'', 0)],
             pendingFetches = [''c1'' \<mapsto> 1], promises = [Some (JStr ''old''), None],
             awaiting = [1 \<mapsto> (''c1'', ''tok'')], issued = 2, clock = 3600000\<rparr>"
  let ?u2 = "\<lparr>projectIdCache = [''c1'' \<mapsto> (JStr ''proj'', 0)], pendingFetches = Map.empty,
             promises = [Some (JStr ''proj'')], awaiting = Map.empty, issued = 1, clock = 0\<rparr>"
  let ?t6 = "\<lparr>projectIdCache = [''c1'' \<mapsto> (JStr ''new'', 1000)], pendingFetches = Map.empty,
             promises = [Some (JStr ''old''), Some (JStr ''new'')], awaiting = Map.empty,
             issued = 2, clock = 1000\<rparr>"
  let ?t5 = "\<lparr>projectIdCache = [''c1'' \<mapsto> (JStr ''old'', 0)],
             pendingFetches = [''c1'' \<mapsto> 1], promises = [Some (JStr ''old''), None],
             awaiting = [1 \<mapsto> (''c1'', ''tok'')], issued = 2, clock = 1000\<rparr>"
  have a0: "getProjectIdForConnection ''c1'' ''tok'' init_registry = (Follows 0, ?t1)"
    by (simp add: getProjectIdForConnection_def init_registry_def fresh_entry_def)
  have a1: "run (CallAct ''c1'' ''tok'' # as) init_registry = run as ?t1" for as
    by (simp add: a0)
  have a2: "run (SettleAct 0 (Fetched (JStr ''proj'')) # as) ?t1 = run as ?u2" for as
    by (simp add: settle_def)
  have a3: "getProjectIdForConnection ''c1'' '''' ?t1 = (Immediate JNull, ?t1)"
    by (simp add: getProjectIdForConnection_def)
  have b2: "run (SettleAct 0 (Fetched (JStr ''old'')) # as) ?t1 = run as ?t2" for as
    by (simp add: settle_def)
  have b3: "run (ClockAct 3600000 # as) ?t2 = run as ?t3" for as
    by simp
  have b4: "getProjectIdForConnection ''c1'' ''tok'' ?t3 = (Follows 1, ?t4)"
    by (simp add: getProjectIdForConnection_def fresh_entry_def CACHE_TTL_MS_def)
  have b4': "run (CallAct ''c1'' ''tok'' # as) ?t3 = run as ?t4" for as
    by (simp only: run.simps act.simps b4 snd_conv)
  have b5: "run (ClockAct 1000 # as) ?t4 = run as ?t5" for as
    by simp
  have b6: "getProjectIdForConnection ''c1'' ''tok'' ?t5 = (Immediate (JStr ''old''), ?t5)"
    by (simp add: getProjectIdForConnection_def fresh_entry_def CACHE_TTL_MS_def)
  have b7: "run (SettleAct 1 (Fetched (JStr ''new'')) # as) ?t5 = run as ?t6" for as
    by (simp add: settle_def)
  have i0: "issued init_registry = 0" by (simp add: init_registry_def)
  show ?thesis
    unfolding a0 a1 a2 b2 b3 b4 b4' b5 b6 b7 a3 i0 run.simps(1)
    by (simp add: eventual_def)
qed

text \<open>
  C9, amended. Let a call for connection \<open>c\<close> issue a fetch, in any reachable state of
  the module, so that the promise it returns follows the promise \<open>p\<close> of that fetch.
  Then, whatever happens next (calls for any connection, other fetches settling,
  invalidations, time passing) as long as the fetch of \<open>p\<close> has not settled and the
  time \<open>Date.now()\<close> reads has not run backwards, a further call for \<open>c\<close> with a non-empty
  access token returns a promise that follows \<open>p\<close> too, and changes nothing: no fetch
  is issued. That promise is pending while the fetch is in flight. When the fetch
  settles, whether it yields a project id, yields \<open>null\<close> or throws, the registry entry
  of \<open>c\<close> is removed, and the eventual result of the further call is the eventual result
  of the first call: the project id the fetch yielded, and \<open>null\<close> when it yielded a falsy
  value or threw; it stays so whatever happens later. A further call for \<open>c\<close> with an
  empty access token returns \<open>null\<close> at once and changes nothing.
\<close>

theorem inflight_fetch_shared:
  assumes "s1 = run as1 init_registry"
    and "getProjectIdForConnection c tok1 s1 = (r1, s2)"
    and "issued s2 = Suc (issued s1)"
    and "pendingFetches s2 c = Some p"
    and "\<forall>out. SettleAct p out \<notin> set as2"
    and "clock_forward as2 s2"
    and "s3 = run as2 s2"
    and "tok \<noteq> []"
    and "s4 = run as3 (settle p out s3)"
  shows "\<exists>r. getProjectIdForConnection c tok s3 = (r, s3) \<and>
             issued (snd (getProjectIdForConnection c tok s3)) = issued s3 \<and>
             r1 = Follows p \<and> r = Follows p \<and>
             eventual s3 r = None \<and>
             pendingFetches s3 c = Some p \<and>
             pendingFetches (settle p out s3) c = None \<and>
             eventual s4 r = eventual s4 r1 \<and>
             eventual s4 r1 =
               Some (case out of Fetched v \<Rightarrow> if truthy v then v else JNull
                     | FetchThrew \<Rightarrow> JNull) \<and>
             getProjectIdForConnection c [] s3 = (Immediate JNull, s3)"
proof -
  let ?v = "case out of Fetched v \<Rightarrow> if truthy v then v else JNull | FetchThrew \<Rightarrow> JNull"
  have i1: "registry_inv s1" unfolding assms(1) by (rule inv_run [OF inv_init])
  from inv_call [OF i1, of c tok1] assms(2) have i2: "registry_inv s2" by simp
  from call_issues [OF assms(2,3)] assms(4) have r1: "r1 = Follows p"
    and f2: "fresh_entry s2 c = None" by simp_all
  from run_keeps_pending [OF i2 assms(4) f2 assms(5,6)]
  have p3: "pendingFetches s3 c = Some p" and f3: "fresh_entry s3 c = None"
    unfolding assms(7) by simp_all
  have i3: "registry_inv s3" unfolding assms(7) by (rule inv_run [OF i2])
  from call_follows [OF i3 p3 f3 assms(8)]
  have 1: "getProjectIdForConnection c tok s3 = (Follows p, s3)" .
  from inv_pending [OF i3 p3] obtain tok0 where aw: "awaiting s3 p = Some (c, tok0)" by blast
  from inv_awaiting [OF i3 aw] have lt: "p < length (promises s3)"
    and pn: "promises s3 ! p = None" by simp_all
  from lt pn have 2: "eventual s3 (Follows p) = None" by (simp add: eventual_def)
  have 3: "pendingFetches (settle p out s3) c = None"
    using settle_fields(1) [OF aw, where out = out] by simp
  have "p < length (promises (settle p out s3))"
    using settle_fields(3) [OF aw, where out = out] lt by simp
  moreover have "promises (settle p out s3) ! p = Some ?v"
    by (rule settle_fields(7) [OF aw lt])
  ultimately have "p < length (promises s4) \<and> promises s4 ! p = Some ?v"
    unfolding assms(9) by (rule run_keeps_resolved [OF inv_settle [OF i3]])
  then have 4: "eventual s4 (Follows p) = Some ?v" by (simp add: eventual_def)
  have 5: "getProjectIdForConnection c [] s3 = (Immediate JNull, s3)"
    by (simp add: getProjectIdForConnection_def)
  show ?thesis
  proof (intro exI conjI)
    show "getProjectIdForConnection c tok s3 = (Follows p, s3)" by (rule 1)
    show "issued (snd (getProjectIdForConnection c tok s3)) = issued s3" by (simp add: 1)
    show "r1 = Follows p" by (rule r1)
    show "Follows p = Follows p" by (rule refl)
    show "eventual s3 (Follows p) = None" by (rule 2)
    show "pendingFetches s3 c = Some p" by (rule p3)
    show "pendingFetches (settle p out s3) c = None" by (rule 3)
    show "eventual s4 (Follows p) = eventual s4 r1" by (simp add: r1)
    show "eventual s4 r1 = Some ?v" unfolding r1 by (rule 4)
    show "getProjectIdForConnection c [] s3 = (Immediate JNull, s3)" by (rule 5)
  qed
qed

theorem inflight_fetch_shared_witness:
  "getProjectIdForConnection ''c1'' ''tok''
       (run [CallAct ''c1'' ''tok'', SettleAct 0 FetchThrew] init_registry)
     = (Follows 1,
        run [CallAct ''c1'' ''tok'', SettleAct 0 FetchThrew, CallAct ''c1'' ''tok'']
          init_registry)
   \<and> issued (run [CallAct ''c1'' ''tok'', SettleAct 0 FetchThrew, CallAct ''c1'' ''tok'']
               init_registry)
       = Suc (issued (run [CallAct ''c1'' ''tok'', SettleAct 0 FetchThrew] init_registry))
   \<and> pendingFetches
        (run [CallAct ''c1'' ''tok'', SettleAct 0 FetchThrew, CallAct ''c1'' ''tok'']
           init_registry) ''c1'' = Some 1
   \<and> (\<forall>out. SettleAct 1 out \<notin> set [ClockAct 5, CallAct ''c2'' ''t2'', InvalidateAct ''c1''])
   \<and> clock_forward [ClockAct 5, CallAct ''c2'' ''t2'', InvalidateAct ''c1'']
        (run [CallAct ''c1'' ''tok'', SettleAct 0 FetchThrew, CallAct ''c1'' ''tok'']
           init_registry)
   \<and> ''other'' \<noteq> []
   \<and> getProjectIdForConnection ''c1'' ''other''
        (run [CallAct ''c1'' ''tok'', SettleAct 0 FetchThrew, CallAct ''c1'' ''tok'',
              ClockAct 5, CallAct ''c2'' ''t2'', InvalidateAct ''c1''] init_registry)
      = (Follows 1,
         run [CallAct ''c1'' ''tok'', SettleAct 0 FetchThrew, CallAct ''c1'' ''tok'',
              ClockAct 5, CallAct ''c2'' ''t2'', InvalidateAct ''c1''] init_registry)
   \<and> eventual
        (run [CallAct ''c1'' ''tok'', SettleAct 0 FetchThrew, CallAct ''c1'' ''tok'',
              ClockAct 5, CallAct ''c2'' ''t2'', InvalidateAct ''c1''] init_registry)
        (Follows 1) = None
   \<and> pendingFetches
        (run [CallAct ''c1'' ''tok'', SettleAct 0 FetchThrew, CallAct ''c1'' ''tok'',
              ClockAct 5, CallAct ''c2'' ''t2'', InvalidateAct ''c1'',
              SettleAct 1 (Fetched (JStr ''proj''))] init_registry) ''c1'' = None
   \<and> eventual
        (run [CallAct ''c1'' ''tok'', SettleAct 0 FetchThrew, CallAct ''c1'' ''tok'',
              ClockAct 5, CallAct ''c2'' ''t2'', InvalidateAct ''c1'',
              SettleAct 1 (Fetched (JStr ''proj'')), ClockAct 2, CallAct ''c3'' ''t3'']
           init_registry)
        (Follows 1) = Some (JStr ''proj'')
   \<and> getProjectIdForConnection ''c1'' ''''
        (run [CallAct ''c1'' ''tok'', SettleAct 0 FetchThrew, CallAct ''c1'' ''tok'',
              ClockAct 5, CallAct ''c2'' ''t2'', InvalidateAct ''c1''] init_registry)
      = (Immediate JNull,
         run [CallAct ''c1'' ''tok'', SettleAct 0 FetchThrew, CallAct ''c1'' ''tok'',
              ClockAct 5, CallAct ''c2'' ''t2'', InvalidateAct ''c1''] init_registry)"
proof -
  let ?as1 = "[CallAct ''c1'' ''tok'', SettleAct 0 FetchThrew]"
  let ?s1 = "run ?as1 init_registry"
  let ?s2 = "snd (getProjectIdForConnection ''c1'' ''tok'' ?s1)"
  let ?as2 = "[ClockAct 5, CallAct ''c2'' ''t2'', InvalidateAct ''c1'']"
  let ?as3 = "[ClockAct 2, CallAct ''c3'' ''t3'']"
  let ?out = "Fetched (JStr ''proj'')"
  have e2: "run [CallAct ''c1'' ''tok'', SettleAct 0 FetchThrew, CallAct ''c1'' ''tok'']
              init_registry = ?s2"
    by (simp only: run.simps act.simps)
  have e3: "run [CallAct ''c1'' ''tok'', SettleAct 0 FetchThrew, CallAct ''c1'' ''tok'',
                 ClockAct 5, CallAct ''c2'' ''t2'', InvalidateAct ''c1''] init_registry
            = run ?as2 ?s2"
    by (simp only: run.simps act.simps)
  have e4: "run [CallAct ''c1'' ''tok'', SettleAct 0 FetchThrew, CallAct ''c1'' ''tok'',
                 ClockAct 5, CallAct ''c2'' ''t2'', InvalidateAct ''c1'',
                 SettleAct 1 (Fetched (JStr ''proj''))] init_registry
            = settle 1 ?out (run ?as2 ?s2)"
    by (simp only: run.simps act.simps)
  have e5: "run [CallAct ''c1'' ''tok'', SettleAct 0 FetchThrew, CallAct ''c1'' ''tok'',
                 ClockAct 5, CallAct ''c2'' ''t2'', InvalidateAct ''c1'',
                 SettleAct 1 (Fetched (JStr ''proj'')), ClockAct 2, CallAct ''c3'' ''t3'']
              init_registry
            = run ?as3 (settle 1 ?out (run ?as2 ?s2))"
    by (simp only: run.simps act.simps)
  have s1: "?s1 = \<lparr>projectIdCache = Map.empty, pendingFetches = Map.empty,
                   promises = [Some JNull], awaiting = Map.empty, issued = 1, clock = 0\<rparr>"
    by (simp add: getProjectIdForConnection_def init_registry_def fresh_entry_def settle_def)
  have 1: "getProjectIdForConnection ''c1'' ''tok'' ?s1 = (Follows 1, ?s2)"
    unfolding s1 by (simp add: getProjectIdForConnection_def fresh_entry_def)
  have 2: "issued ?s2 = Suc (issued ?s1)"
    unfolding s1 by (simp add: getProjectIdForConnection_def fresh_entry_def)
  have 3: "pendingFetches ?s2 ''c1'' = Some 1"
    unfolding s1 by (simp add: getProjectIdForConnection_def fresh_entry_def)
  have 4: "\<forall>out. SettleAct 1 out \<notin> set ?as2" by simp
  have 5: "clock_forward ?as2 ?s2"
    unfolding s1 by (simp add: getProjectIdForConnection_def fresh_entry_def)
  have 6: "''other'' \<noteq> []" by simp
  from inflight_fetch_shared [OF refl 1 2 3 4 5 refl 6 refl,
      where out = ?out and ?as3.0 = ?as3]
  have 7: "getProjectIdForConnection ''c1'' ''other'' (run ?as2 ?s2) = (Follows 1, run ?as2 ?s2)"
    and 8: "eventual (run ?as2 ?s2) (Follows 1) = None"
    and 9: "pendingFetches (settle 1 ?out (run ?as2 ?s2)) ''c1'' = None"
    and 10: "eventual (run ?as3 (settle 1 ?out (run ?as2 ?s2))) (Follows 1)
            = Some (JStr ''proj'')"
    and 11: "getProjectIdForConnection ''c1'' '''' (run ?as2 ?s2)
            = (Immediate JNull, run ?as2 ?s2)"
    by (auto simp del: run.simps)
  show ?thesis
    unfolding e2 e3 e4 e5 using 1 2 3 4 5 6 7 8 9 10 11 by blast
qed

section \<open>Falsy input\<close>

text \<open>
  C10. When \<open>body.input\<close> is absent, null or otherwise falsy, the translator returns the
  body itself, whatever its other fields (instructions included) and whatever the
  \<open>model\<close>, \<open>stream\<close> and \<open>credentials\<close> arguments: nothing is added and nothing is
  stripped. The body is any value on which the read \<open>body.input\<close> does not throw.
\<close>

theorem falsy_input_returns_body:
  assumes "\<not> nullish body" and "\<not> truthy (field body ''input'')"
  shows "openaiResponsesToOpenAIRequest stringify model body stream credentials = Some body"
  using assms by (cases body) (simp_all add: nullish_def)

theorem falsy_input_returns_body_witness:
  "\<not> nullish (JObj [(''instructions'', JStr ''be terse''), (''input'', JNull), (''store'', JBool True)])
   \<and> \<not> truthy (field (JObj [(''instructions'', JStr ''be terse''), (''input'', JNull), (''store'', JBool True)]) ''input'')
   \<and> openaiResponsesToOpenAIRequest (\<lambda>v. JUndef) JNull
       (JObj [(''instructions'', JStr ''be terse''), (''input'', JNull), (''store'', JBool True)])
       JNull JNull
     = Some (JObj [(''instructions'', JStr ''be terse''), (''input'', JNull), (''store'', JBool True)])"
  using falsy_input_returns_body
    [of "JObj [(''instructions'', JStr ''be terse''), (''input'', JNull), (''store'', JBool True)]"
        "\<lambda>v. JUndef" JNull JNull JNull]
  by (simp add: nullish_def)

end
